theory Spec2Isabelle
  imports Main "HOL-Library.AList"
begin

section \<open>The schema data model of \<open>introspect.py\<close>\<close>

text \<open>
  The three dataclasses of the module. \<open>CommandSchema\<close> objects are mutable and are
  compared by identity (\<open>parent\<close> is a reference, \<open>subcommands\<close> holds references), so
  they live in a store: a list of objects whose indices are the addresses. A reference
  to a \<open>CommandSchema\<close> is an address; \<open>None\<close> is the absent reference.

  A Python \<open>dict\<close> keeps insertion order and an assignment to a key that is already
  present replaces the value in place: an association list written with
  \<^const>\<open>AList.update\<close>.

  Values of type \<open>Any\<close> (the defaults) are a small datatype of Python values;
  \<open>PyNone\<close> is Python's \<open>None\<close>. A callable is known by the identity of the function
  object only (a number).
\<close>

type_synonym CommandName = string
type_synonym addr = nat

datatype py_value = PyNone | PyBool bool | PyInt int | PyStr string

record OptionSchema =
  option_name :: string
  option_type :: string
  option_default :: py_value
  option_required :: bool
  option_help :: "string option"
  option_choices :: "string list option"

record ArgumentSchema =
  argument_name :: string
  argument_type :: string
  argument_required :: bool
  argument_default :: py_value
  argument_choices :: "string list option"

record CommandSchema =
  command_name :: CommandName
  command_function :: "nat option"
  command_docstring :: "string option"
  command_options :: "OptionSchema list"
  command_arguments :: "ArgumentSchema list"
  command_subcommands :: "(CommandName \<times> addr) list"
  command_parent :: "addr option"

type_synonym schema_heap = "CommandSchema list"

section \<open>The command tree that is read\<close>

text \<open>
  The objects of the command framework, as far as \<open>process_command\<close> looks at them.

  A parameter is known by the class tests the code makes (\<open>isinstance\<close> against
  \<open>Option\<close>, \<open>Group\<close>, \<open>Argument\<close>; anything else is \<open>OtherClass\<close>) and by the
  attributes the code reads. Reading an attribute that an object does not have raises
  \<open>AttributeError\<close>, which carries the name of the attribute. Every \<open>Option\<close>, \<open>Group\<close>
  and \<open>Argument\<close> object has a \<open>name\<close>, and every \<open>Option\<close> and \<open>Group\<close> object a
  \<open>help\<close>. The attributes \<open>type\<close>, \<open>required\<close> and \<open>default\<close> are those of an
  \<open>Option\<close> or \<open>Argument\<close>; a \<open>Group\<close> object has them only if its class adds them, so
  each of them is optional in the model: \<open>None\<close> is an object without the attribute.
  The type object is a \<open>Choice\<close> (with its choices) or another parameter type, and may
  itself have no \<open>name\<close> (\<open>type_name = None\<close>).

  A command has a help text, a callback and parameters; a group has a \<open>commands\<close>
  dictionary as well (\<open>obj_commands = None\<close> is a command that is not a group). The input is
  a graph of Python objects which the code only reads, never compares by identity: it is
  modelled by its unfolding, a possibly infinite tree (a codatatype), so that a group
  that contains itself is a value of the type too.
\<close>

datatype error = AttributeError string

datatype ParamType =
    ParamType (type_name: "string option")
  | Choice (type_name: "string option") (choices: "string list")

datatype param_class = OptionClass | GroupClass | ArgumentClass | OtherClass

record click_param =
  param_class :: param_class
  param_name :: string
  param_type :: "ParamType option"
  param_required :: "bool option"
  param_default :: "py_value option"
  param_help :: "string option"

codatatype click_command =
  ClickCommand
    (obj_help: "string option")
    (obj_callback: "nat option")
    (obj_params: "click_param list")
    (obj_commands: "(CommandName \<times> click_command) list option")

section \<open>Operations on the store\<close>

definition alloc :: "CommandSchema \<Rightarrow> schema_heap \<Rightarrow> addr \<times> schema_heap" where
  "alloc obj h = (length h, h @ [obj])"

definition modify :: "addr \<Rightarrow> (CommandSchema \<Rightarrow> CommandSchema) \<Rightarrow> schema_heap \<Rightarrow> schema_heap" where
  "modify a f h = h[a := f (h ! a)]"

text \<open>\<open>cmd_data.options.append(option_data)\<close>\<close>

definition append_option :: "addr \<Rightarrow> OptionSchema \<Rightarrow> schema_heap \<Rightarrow> schema_heap" where
  "append_option cmd_data option_data h =
     modify cmd_data (\<lambda>s. s\<lparr>command_options := command_options s @ [option_data]\<rparr>) h"

text \<open>\<open>cmd_data.arguments.append(argument_data)\<close>\<close>

definition append_argument :: "addr \<Rightarrow> ArgumentSchema \<Rightarrow> schema_heap \<Rightarrow> schema_heap" where
  "append_argument cmd_data argument_data h =
     modify cmd_data (\<lambda>s. s\<lparr>command_arguments := command_arguments s @ [argument_data]\<rparr>) h"

text \<open>\<open>cmd_data.subcommands[subcmd_name] = child\<close>\<close>

definition set_subcommand :: "addr \<Rightarrow> CommandName \<Rightarrow> addr \<Rightarrow> schema_heap \<Rightarrow> schema_heap" where
  "set_subcommand cmd_data subcmd_name child h =
     modify cmd_data
       (\<lambda>s. s\<lparr>command_subcommands := AList.update subcmd_name child (command_subcommands s)\<rparr>) h"

section \<open>\<open>process_command\<close>\<close>

text \<open>
  \<open>param.type.name\<close>, \<open>param.required\<close> and \<open>param.default\<close>: the value of the
  attribute, or the \<open>AttributeError\<close> for the attribute that is missing.
\<close>

definition resolve_type_name :: "click_param \<Rightarrow> error + string" where
  "resolve_type_name param =
     (case param_type param of
        None \<Rightarrow> Inl (AttributeError ''type'')
      | Some t \<Rightarrow>
          (case type_name t of None \<Rightarrow> Inl (AttributeError ''name'') | Some n \<Rightarrow> Inr n))"

definition read_required :: "click_param \<Rightarrow> error + bool" where
  "read_required param =
     (case param_required param of
        None \<Rightarrow> Inl (AttributeError ''required'')
      | Some b \<Rightarrow> Inr b)"

definition read_default :: "click_param \<Rightarrow> error + py_value" where
  "read_default param =
     (case param_default param of
        None \<Rightarrow> Inl (AttributeError ''default'')
      | Some v \<Rightarrow> Inr v)"

text \<open>\<open>isinstance(param.type, click.Choice)\<close>, and then \<open>param.type.choices\<close>\<close>

definition choices_of :: "click_param \<Rightarrow> string list option" where
  "choices_of param =
     (case param_type param of Some (Choice n cs) \<Rightarrow> Some cs | _ \<Rightarrow> None)"

text \<open>
  The loop over \<open>cmd_obj.params\<close> (lines 80 to 97). The keyword arguments of a
  constructor call are evaluated in the order written: \<open>name\<close>, \<open>type\<close>, \<open>required\<close>,
  \<open>default\<close>, \<open>help\<close> for an \<open>OptionSchema\<close> and \<open>name\<close>, \<open>type\<close>, \<open>required\<close> for an
  \<open>ArgumentSchema\<close>, and the first read that fails ends the call. \<open>ArgumentSchema\<close> is
  built without \<open>default\<close>, which the dataclass sets to \<open>None\<close>, and \<open>OptionSchema\<close>
  without \<open>choices\<close>, likewise \<open>None\<close>. A parameter that passes neither class test is
  passed over.
\<close>

fun process_params :: "click_param list \<Rightarrow> addr \<Rightarrow> schema_heap \<Rightarrow> error + schema_heap" where
  "process_params [] cmd_data h = Inr h"
| "process_params (param # rest) cmd_data h =
     (if param_class param = OptionClass \<or> param_class param = GroupClass then
        (case resolve_type_name param of
           Inl e \<Rightarrow> Inl e
         | Inr tn \<Rightarrow>
             (case read_required param of
                Inl e \<Rightarrow> Inl e
              | Inr req \<Rightarrow>
                  (case read_default param of
                     Inl e \<Rightarrow> Inl e
                   | Inr dflt \<Rightarrow>
                       let option_data =
                             \<lparr>option_name = param_name param, option_type = tn,
                              option_default = dflt, option_required = req,
                              option_help = param_help param, option_choices = None\<rparr>
                       in process_params rest cmd_data
                            (append_option cmd_data option_data h))))
      else if param_class param = ArgumentClass then
        (case resolve_type_name param of
           Inl e \<Rightarrow> Inl e
         | Inr tn \<Rightarrow>
             (case read_required param of
                Inl e \<Rightarrow> Inl e
              | Inr req \<Rightarrow>
                  let argument_data =
                        \<lparr>argument_name = param_name param, argument_type = tn,
                         argument_required = req,
                         argument_default = PyNone, argument_choices = None\<rparr>;
                      argument_data =
                        (case choices_of param of
                           Some cs \<Rightarrow> argument_data\<lparr>argument_choices := Some cs\<rparr>
                         | None \<Rightarrow> argument_data)
                  in process_params rest cmd_data
                       (append_argument cmd_data argument_data h)))
      else process_params rest cmd_data h)"

text \<open>
  The loop over \<open>cmd_obj.commands.items()\<close> (lines 100 to 103), given the function
  that is called on each child. A result is \<open>None\<close> when the walk does not return,
  \<open>Some (Inl e)\<close> when it raises \<open>e\<close>, \<open>Some (Inr x)\<close> when it returns \<open>x\<close>.
\<close>

type_synonym 'a result = "(error + 'a) option"

fun subcommands_loop ::
  "(CommandName \<Rightarrow> click_command \<Rightarrow> addr option \<Rightarrow> schema_heap \<Rightarrow> (addr \<times> schema_heap) result) \<Rightarrow>
   (CommandName \<times> click_command) list \<Rightarrow> addr \<Rightarrow> schema_heap \<Rightarrow> schema_heap result" where
  "subcommands_loop rec [] cmd_data h = Some (Inr h)"
| "subcommands_loop rec ((subcmd_name, subcmd_obj) # rest) cmd_data h =
     (case rec subcmd_name subcmd_obj (Some cmd_data) h of
        None \<Rightarrow> None
      | Some (Inl e) \<Rightarrow> Some (Inl e)
      | Some (Inr (child, h')) \<Rightarrow>
          subcommands_loop rec rest cmd_data (set_subcommand cmd_data subcmd_name child h'))"

text \<open>
  \<open>process_command\<close> (lines 69 to 105). The first argument bounds the depth of the
  recursion: \<open>process_command n\<close> may nest \<open>n\<close> calls, and is \<open>None\<close> when the walk of
  the input needs more.
\<close>

primrec process_command ::
  "nat \<Rightarrow> CommandName \<Rightarrow> click_command \<Rightarrow> addr option \<Rightarrow> schema_heap \<Rightarrow> (addr \<times> schema_heap) result" where
  "process_command 0 cmd_name cmd_obj parent h = None"
| "process_command (Suc n) cmd_name cmd_obj parent h =
     (let (cmd_data, h1) =
            alloc \<lparr>command_name = cmd_name, command_function = obj_callback cmd_obj,
                   command_docstring = obj_help cmd_obj, command_options = [], command_arguments = [],
                   command_subcommands = [], command_parent = parent\<rparr> h
      in case process_params (obj_params cmd_obj) cmd_data h1 of
           Inl e \<Rightarrow> Some (Inl e)
         | Inr h2 \<Rightarrow>
             (case obj_commands cmd_obj of
                None \<Rightarrow> Some (Inr (cmd_data, h2))
              | Some cs \<Rightarrow>
                  (case subcommands_loop (process_command n) cs cmd_data h2 of
                     None \<Rightarrow> None
                   | Some (Inl e) \<Rightarrow> Some (Inl e)
                   | Some (Inr h3) \<Rightarrow> Some (Inr (cmd_data, h3)))))"

section \<open>\<open>introspect_click_app\<close>\<close>

text \<open>
  The loop of lines 107 to 109: each top-level command is processed with no parent and
  stored in the dictionary \<open>data\<close>.
\<close>

fun app_loop ::
  "(CommandName \<Rightarrow> click_command \<Rightarrow> addr option \<Rightarrow> schema_heap \<Rightarrow> (addr \<times> schema_heap) result) \<Rightarrow>
   (CommandName \<times> click_command) list \<Rightarrow> (CommandName \<times> addr) list \<Rightarrow> schema_heap \<Rightarrow>
   ((CommandName \<times> addr) list \<times> schema_heap) result" where
  "app_loop rec [] data h = Some (Inr (data, h))"
| "app_loop rec ((cmd_name, cmd_obj) # rest) data h =
     (case rec cmd_name cmd_obj None h of
        None \<Rightarrow> None
      | Some (Inl e) \<Rightarrow> Some (Inl e)
      | Some (Inr (a, h')) \<Rightarrow> app_loop rec rest (AList.update cmd_name a data) h')"

text \<open>
  \<open>introspect_click_app\<close>, started in a store without schema objects. Reading
  \<open>app.commands\<close> of an object that is not a group raises \<open>AttributeError\<close>.
\<close>

definition introspect_click_app ::
  "nat \<Rightarrow> click_command \<Rightarrow> ((CommandName \<times> addr) list \<times> schema_heap) result" where
  "introspect_click_app n app =
     (case obj_commands app of
        None \<Rightarrow> Some (Inl (AttributeError ''commands''))
      | Some cs \<Rightarrow> app_loop (process_command n) cs [] [])"

section \<open>\<open>path_from_root\<close>\<close>

text \<open>
  The \<open>while\<close> loop of lines 43 to 45 follows \<open>parent\<close> references, and does not return
  when they form a cycle: the loop is a partial function, \<open>None\<close> when it runs forever.
\<close>

partial_function (option) path_loop :: "schema_heap \<Rightarrow> addr \<Rightarrow> addr list \<Rightarrow> addr list option" where
  "path_loop h node path =
     (case command_parent (h ! node) of
        None \<Rightarrow> Some path
      | Some p \<Rightarrow> path_loop h p (path @ [p]))"

definition path_from_root :: "schema_heap \<Rightarrow> addr \<Rightarrow> addr list option" where
  "path_from_root h self = map_option rev (path_loop h self [self])"

section \<open>Notions used to state the properties\<close>

subsection \<open>Parameters and their schemas\<close>

text \<open>
  The two class tests of the loop over the parameters, and what a schema entry records
  of the parameter it was made from.
\<close>

definition option_like :: "click_param \<Rightarrow> bool" where
  "option_like p = (param_class p = OptionClass \<or> param_class p = GroupClass)"

definition positional :: "click_param \<Rightarrow> bool" where
  "positional p = (param_class p = ArgumentClass)"

definition option_rel :: "click_param \<Rightarrow> OptionSchema \<Rightarrow> bool" where
  "option_rel p s =
     (option_name s = param_name p \<and> resolve_type_name p = Inr (option_type s) \<and>
      param_required p = Some (option_required s) \<and>
      param_default p = Some (option_default s) \<and>
      option_help s = param_help p \<and> option_choices s = None)"

definition argument_rel :: "click_param \<Rightarrow> ArgumentSchema \<Rightarrow> bool" where
  "argument_rel p s =
     (argument_name s = param_name p \<and> resolve_type_name p = Inr (argument_type s) \<and>
      param_required p = Some (argument_required s) \<and> argument_default s = PyNone \<and>
      argument_choices s = choices_of p)"








subsection \<open>Input trees\<close>

text \<open>
  \<open>within_depth n c\<close>: the tree of commands below \<open>c\<close> is finite and has at most \<open>n\<close>
  levels, \<open>c\<close> itself being the first. \<open>dict_tree n c\<close>: down to level \<open>n\<close>, no
  \<open>commands\<close> dictionary has a key twice, as in every Python \<open>dict\<close>.
  \<open>cyclic_group k\<close> is a group that contains itself under the name \<open>k\<close>.
\<close>

primrec within_depth :: "nat \<Rightarrow> click_command \<Rightarrow> bool" where
  "within_depth 0 c = False"
| "within_depth (Suc n) c =
     (case obj_commands c of
        None \<Rightarrow> True
      | Some cs \<Rightarrow> (\<forall>kc\<in>set cs. within_depth n (snd kc)))"

primrec dict_tree :: "nat \<Rightarrow> click_command \<Rightarrow> bool" where
  "dict_tree 0 c = True"
| "dict_tree (Suc n) c =
     (case obj_commands c of
        None \<Rightarrow> True
      | Some cs \<Rightarrow> distinct (map fst cs) \<and> (\<forall>kc\<in>set cs. dict_tree n (snd kc)))"

primcorec cyclic_group :: "CommandName \<Rightarrow> click_command" where
  "cyclic_group k = ClickCommand None None [] (Some [(k, cyclic_group k)])"

subsection \<open>The store invariant\<close>

text \<open>
  Every entry \<open>(k, c)\<close> of the \<open>subcommands\<close> of an object \<open>s\<close> refers to an object \<open>c\<close> of
  the store that was made after \<open>s\<close>, whose \<open>parent\<close> is \<open>s\<close> and whose name is \<open>k\<close>; no key
  and no object occurs twice in a \<open>subcommands\<close> dictionary.
\<close>

definition wf_heap :: "schema_heap \<Rightarrow> bool" where
  "wf_heap h =
     (\<forall>s<length h.
        (\<forall>kc\<in>set (command_subcommands (h ! s)).
           s < snd kc \<and> snd kc < length h \<and>
           command_parent (h ! snd kc) = Some s \<and> command_name (h ! snd kc) = fst kc) \<and>
        distinct (map fst (command_subcommands (h ! s))) \<and>
        distinct (map snd (command_subcommands (h ! s))))"

text \<open>
  What a call of \<open>process_command\<close> that returns \<open>a\<close> and the store \<open>h'\<close> has done to the
  store \<open>h\<close> it started in: \<open>a\<close> is a new object, the old objects are as they were.
\<close>

definition command_post :: "CommandName \<Rightarrow> addr option \<Rightarrow> schema_heap \<Rightarrow> addr \<Rightarrow> schema_heap \<Rightarrow> bool" where
  "command_post nm par h a h' =
     (a = length h \<and> a < length h' \<and> (\<forall>i<length h. h' ! i = h ! i) \<and> wf_heap h' \<and>
      command_name (h' ! a) = nm \<and> command_parent (h' ! a) = par)"

text \<open>
  The same for the dictionary \<open>data\<close> that \<open>introspect_click_app\<close> returns: its entries
  refer to objects of the store that have no parent and carry their key as name.
\<close>

definition roots_ok :: "(CommandName \<times> addr) list \<Rightarrow> schema_heap \<Rightarrow> bool" where
  "roots_ok data h =
     (wf_heap h \<and>
      (\<forall>ka\<in>set data. snd ka < length h \<and> command_parent (h ! snd ka) = None \<and>
                      command_name (h ! snd ka) = fst ka) \<and>
      distinct (map fst data) \<and> distinct (map snd data))"

subsection \<open>Nodes of a schema tree\<close>

text \<open>
  The objects found \<open>d\<close> steps along \<open>subcommands\<close> from the roots: the nodes of depth
  \<open>d\<close>. A list of addresses is \<open>parent_linked\<close> when each element is the \<open>parent\<close> of
  the next and holds it in its \<open>subcommands\<close>.
\<close>

primrec nodes_at_depth :: "schema_heap \<Rightarrow> addr list \<Rightarrow> nat \<Rightarrow> addr list" where
  "nodes_at_depth h roots 0 = roots"
| "nodes_at_depth h roots (Suc d) =
     concat (map (\<lambda>s. map snd (command_subcommands (h ! s))) (nodes_at_depth h roots d))"

fun parent_linked :: "schema_heap \<Rightarrow> addr list \<Rightarrow> bool" where
  "parent_linked h [] = True"
| "parent_linked h [x] = True"
| "parent_linked h (x # y # rest) =
     (command_parent (h ! y) = Some x \<and> y \<in> snd ` set (command_subcommands (h ! x)) \<and>
      parent_linked h (y # rest))"

subsection \<open>Walking the input and the schema side by side\<close>

text \<open>
  \<open>tree_all n Q h c a\<close>: the command \<open>c\<close> and the schema object at \<open>a\<close> satisfy \<open>Q\<close>, the
  \<open>subcommands\<close> of the schema have the keys of the \<open>commands\<close> of \<open>c\<close> in the same order,
  and the same holds of each child and its schema, down to the leaves, which are met
  within \<open>n\<close> levels. \<open>forest_all\<close> is the same for a dictionary of top-level commands
  and the dictionary of their schemas. \<open>node_ok\<close> collects what one schema object
  records of its command.
\<close>

primrec tree_all ::
  "nat \<Rightarrow> (click_command \<Rightarrow> CommandSchema \<Rightarrow> bool) \<Rightarrow> schema_heap \<Rightarrow> click_command \<Rightarrow> addr \<Rightarrow> bool" where
  "tree_all 0 Q h c a = False"
| "tree_all (Suc n) Q h c a =
     (a < length h \<and> Q c (h ! a) \<and>
      (case obj_commands c of
         None \<Rightarrow> True
       | Some cs \<Rightarrow>
           list_all2 (\<lambda>kc ka. fst ka = fst kc \<and> tree_all n Q h (snd kc) (snd ka))
             cs (command_subcommands (h ! a))))"

definition forest_all ::
  "nat \<Rightarrow> (click_command \<Rightarrow> CommandSchema \<Rightarrow> bool) \<Rightarrow> schema_heap \<Rightarrow>
   (CommandName \<times> click_command) list \<Rightarrow> (CommandName \<times> addr) list \<Rightarrow> bool" where
  "forest_all n Q h cs m =
     list_all2 (\<lambda>kc ka. fst ka = fst kc \<and> tree_all n Q h (snd kc) (snd ka)) cs m"

definition node_ok :: "click_command \<Rightarrow> CommandSchema \<Rightarrow> bool" where
  "node_ok c s =
     (command_function s = obj_callback c \<and> command_docstring s = obj_help c \<and>
      list_all2 option_rel (filter option_like (obj_params c)) (command_options s) \<and>
      list_all2 argument_rel (filter positional (obj_params c)) (command_arguments s) \<and>
      (obj_commands c = None \<longrightarrow> command_subcommands s = []))"

section \<open>Example inputs\<close>

text \<open>
  The scenario of the specification: a group \<open>tool\<close> with the commands \<open>add\<close> (an
  option \<open>force\<close>, an argument \<open>path\<close>) and \<open>list\<close>, and the store and dictionary that
  \<open>introspect_click_app\<close> returns for it.
\<close>

definition opt_force :: click_param where
  "opt_force = \<lparr>param_class = OptionClass, param_name = ''force'',
     param_type = Some (ParamType (Some ''bool'')), param_required = Some False,
     param_default = Some (PyBool False), param_help = None\<rparr>"

definition arg_path :: click_param where
  "arg_path = \<lparr>param_class = ArgumentClass, param_name = ''path'',
     param_type = Some (ParamType (Some ''string'')), param_required = Some True,
     param_default = Some PyNone, param_help = None\<rparr>"

definition tool_app :: click_command where
  "tool_app = ClickCommand None None []
     (Some [(''tool'', ClickCommand None None []
        (Some [(''add'', ClickCommand None (Some 1) [opt_force, arg_path] None),
               (''list'', ClickCommand None (Some 2) [] None)]))])"

definition tool_data :: "(CommandName \<times> addr) list" where
  "tool_data = [(''tool'', 0)]"

definition tool_heap :: schema_heap where
  "tool_heap =
     [\<lparr>command_name = ''tool'', command_function = None, command_docstring = None,
       command_options = [], command_arguments = [],
       command_subcommands = [(''add'', 1), (''list'', 2)], command_parent = None\<rparr>,
      \<lparr>command_name = ''add'', command_function = Some 1, command_docstring = None,
       command_options =
         [\<lparr>option_name = ''force'', option_type = ''bool'', option_default = PyBool False,
           option_required = False, option_help = None, option_choices = None\<rparr>],
       command_arguments =
         [\<lparr>argument_name = ''path'', argument_type = ''string'', argument_required = True,
           argument_default = PyNone, argument_choices = None\<rparr>],
       command_subcommands = [], command_parent = Some 0\<rparr>,
      \<lparr>command_name = ''list'', command_function = Some 2, command_docstring = None,
       command_options = [], command_arguments = [], command_subcommands = [],
       command_parent = Some 0\<rparr>]"

text \<open>
  A second application: an option whose type is a \<open>Choice\<close>, a parameter that is a
  \<open>Group\<close> instance, an argument whose type is a \<open>Choice\<close>, and a group without
  children.
\<close>

definition opt_color :: click_param where
  "opt_color = \<lparr>param_class = OptionClass, param_name = ''color'',
     param_type = Some (Choice (Some ''choice'') [''red'', ''green'']), param_required = Some False,
     param_default = Some (PyStr ''red''), param_help = Some ''Colour of the output''\<rparr>"

definition grp_param :: click_param where
  "grp_param = \<lparr>param_class = GroupClass, param_name = ''nested'',
     param_type = Some (ParamType (Some ''text'')), param_required = Some False,
     param_default = Some PyNone, param_help = Some ''A nested group''\<rparr>"

definition arg_mode :: click_param where
  "arg_mode = \<lparr>param_class = ArgumentClass, param_name = ''mode'',
     param_type = Some (Choice (Some ''choice'') [''a'', ''b'', ''c'']), param_required = Some True,
     param_default = Some PyNone, param_help = None\<rparr>"

definition demo_commands :: "(CommandName \<times> click_command) list" where
  "demo_commands =
     [(''tool'', ClickCommand (Some ''A tool'') None [opt_color]
        (Some [(''add'', ClickCommand None (Some 1) [opt_force, grp_param, arg_path, arg_mode] None),
               (''none'', ClickCommand None (Some 2) [] (Some []))]))]"

definition demo_app :: click_command where
  "demo_app = ClickCommand None None [] (Some demo_commands)"

definition demo_data :: "(CommandName \<times> addr) list" where
  "demo_data = [(''tool'', 0)]"

definition demo_heap :: schema_heap where
  "demo_heap =
     [\<lparr>command_name = ''tool'', command_function = None, command_docstring = Some ''A tool'',
       command_options =
         [\<lparr>option_name = ''color'', option_type = ''choice'', option_default = PyStr ''red'',
           option_required = False, option_help = Some ''Colour of the output'',
           option_choices = None\<rparr>],
       command_arguments = [],
       command_subcommands = [(''add'', 1), (''none'', 2)], command_parent = None\<rparr>,
      \<lparr>command_name = ''add'', command_function = Some 1, command_docstring = None,
       command_options =
         [\<lparr>option_name = ''force'', option_type = ''bool'', option_default = PyBool False,
           option_required = False, option_help = None, option_choices = None\<rparr>,
          \<lparr>option_name = ''nested'', option_type = ''text'', option_default = PyNone,
           option_required = False, option_help = Some ''A nested group'',
           option_choices = None\<rparr>],
       command_arguments =
         [\<lparr>argument_name = ''path'', argument_type = ''string'', argument_required = True,
           argument_default = PyNone, argument_choices = None\<rparr>,
          \<lparr>argument_name = ''mode'', argument_type = ''choice'', argument_required = True,
           argument_default = PyNone, argument_choices = Some [''a'', ''b'', ''c'']\<rparr>],
       command_subcommands = [], command_parent = Some 0\<rparr>,
      \<lparr>command_name = ''none'', command_function = Some 2, command_docstring = None,
       command_options = [], command_arguments = [], command_subcommands = [],
       command_parent = Some 0\<rparr>]"

text \<open>An argument that declares a default.\<close>

definition arg_count :: click_param where
  "arg_count = \<lparr>param_class = ArgumentClass, param_name = ''count'',
     param_type = Some (ParamType (Some ''integer'')), param_required = Some False,
     param_default = Some (PyInt 5), param_help = None\<rparr>"

definition count_app :: click_command where
  "count_app = ClickCommand None None []
     (Some [(''repeat'', ClickCommand None (Some 1) [arg_count] None)])"










section \<open>The store\<close>

lemma modify_length [simp]: "length (modify a f h) = length h"
  by (simp add: modify_def)

lemma modify_nth: "i < length h \<Longrightarrow> modify a f h ! i = (if i = a then f (h ! a) else h ! i)"
  by (simp add: modify_def)

lemma modify_modify: "modify a f (modify a g h) = modify a (f \<circ> g) h"
  by (cases "a < length h") (simp_all add: modify_def list_update_beyond)

section \<open>The loop over the parameters\<close>

lemma process_params_spec:
  "process_params ps a h = Inr h' \<Longrightarrow>
   \<exists>os as. h' = modify a (\<lambda>s. s\<lparr>command_options := command_options s @ os,
                                  command_arguments := command_arguments s @ as\<rparr>) h \<and>
           list_all2 option_rel (filter option_like ps) os \<and>
           list_all2 argument_rel (filter positional ps) as"
proof (induction ps arbitrary: h)
  case Nil
  have "h = modify a (\<lambda>s. s\<lparr>command_options := command_options s @ [],
                                  command_arguments := command_arguments s @ []\<rparr>) h"
    by (simp add: modify_def)
  with Nil show ?case by auto
next
  case (Cons p ps)
  show ?case
  proof (cases "option_like p")
    case True
    then obtain tn req dflt where tn: "resolve_type_name p = Inr tn"
      and req: "read_required p = Inr req" and dflt: "read_default p = Inr dflt"
      using Cons.prems by (auto simp: option_like_def split: sum.splits)
    define od where "od = \<lparr>option_name = param_name p, option_type = tn,
                    option_default = dflt, option_required = req,
                    option_help = param_help p, option_choices = None\<rparr>"
    have rec: "process_params ps a (append_option a od h) = Inr h'"
      using Cons.prems True tn req dflt by (auto simp: option_like_def od_def)
    from Cons.IH[OF rec] obtain os as where
      h': "h' = modify a (\<lambda>s. s\<lparr>command_options := command_options s @ os,
                                  command_arguments := command_arguments s @ as\<rparr>) (append_option a od h)"
      and os: "list_all2 option_rel (filter option_like ps) os"
      and as: "list_all2 argument_rel (filter positional ps) as" by blast
    have "h' = modify a (\<lambda>s. s\<lparr>command_options := command_options s @ (od # os),
                                  command_arguments := command_arguments s @ as\<rparr>) h"
      unfolding h' append_option_def modify_modify by (simp add: comp_def)
    moreover have "param_required p = Some req" "param_default p = Some dflt"
      using req dflt by (auto simp: read_required_def read_default_def split: option.splits)
    then have "option_rel p od" by (simp add: option_rel_def od_def tn)
    moreover have "\<not> positional p" using True by (auto simp: option_like_def positional_def)
    ultimately show ?thesis using True os as by auto
  next
    case False
    note nopt = this
    show ?thesis
    proof (cases "positional p")
      case True
      then obtain tn req where tn: "resolve_type_name p = Inr tn"
        and req: "read_required p = Inr req"
        using Cons.prems nopt by (auto simp: option_like_def positional_def split: sum.splits)
      define ad where "ad = \<lparr>argument_name = param_name p, argument_type = tn,
                    argument_required = req,
                    argument_default = PyNone, argument_choices = choices_of p\<rparr>"
      have rec: "process_params ps a (append_argument a ad h) = Inr h'"
        using Cons.prems True tn req nopt
        by (cases "choices_of p") (auto simp: option_like_def positional_def ad_def Let_def)
      from Cons.IH[OF rec] obtain os as where
        h': "h' = modify a (\<lambda>s. s\<lparr>command_options := command_options s @ os,
                                  command_arguments := command_arguments s @ as\<rparr>) (append_argument a ad h)"
        and os: "list_all2 option_rel (filter option_like ps) os"
        and as: "list_all2 argument_rel (filter positional ps) as" by blast
      have "h' = modify a (\<lambda>s. s\<lparr>command_options := command_options s @ os,
                                  command_arguments := command_arguments s @ (ad # as)\<rparr>) h"
        unfolding h' append_argument_def modify_modify by (simp add: comp_def)
      moreover have "param_required p = Some req"
        using req by (auto simp: read_required_def split: option.splits)
      then have "argument_rel p ad" by (simp add: argument_rel_def ad_def tn)
      ultimately show ?thesis using True nopt os as by auto
    next
      case False
      then have rec: "process_params ps a h = Inr h'"
        using Cons.prems nopt by (auto simp: option_like_def positional_def)
      from Cons.IH[OF rec] show ?thesis using False nopt by auto
    qed
  qed
qed

section \<open>Dictionaries\<close>

lemma update_set_subset: "set (AList.update k v al) \<subseteq> insert (k, v) (set al)"
  by (induction al) auto

lemma update_distinct_snd:
  "distinct (map snd al) \<Longrightarrow> v \<notin> snd ` set al \<Longrightarrow> distinct (map snd (AList.update k v al))"
proof (induction al)
  case Nil
  then show ?case by simp
next
  case (Cons p al)
  have "snd ` set (AList.update k v al) \<subseteq> insert v (snd ` set al)"
    using update_set_subset[of k v al] by force
  with Cons show ?case by (auto simp: rev_image_eqI)
qed

lemma update_fresh: "k \<notin> fst ` set al \<Longrightarrow> AList.update k v al = al @ [(k, v)]"
  by (induction al) auto

section \<open>The store invariant is kept\<close>

lemma wf_heap_Nil: "wf_heap []"
  by (simp add: wf_heap_def)

lemma wf_heapD:
  assumes "wf_heap h" and "s < length h" and "kc \<in> set (command_subcommands (h ! s))"
  shows "s < snd kc" and "snd kc < length h"
    and "command_parent (h ! snd kc) = Some s" and "command_name (h ! snd kc) = fst kc"
  using assms unfolding wf_heap_def by blast+

lemma wf_heap_distinct:
  assumes "wf_heap h" and "s < length h"
  shows "distinct (map fst (command_subcommands (h ! s)))"
    and "distinct (map snd (command_subcommands (h ! s)))"
  using assms unfolding wf_heap_def by blast+

lemma wf_heap_alloc:
  assumes wf: "wf_heap h" and obj: "command_subcommands obj = []"
  shows "wf_heap (h @ [obj])"
  unfolding wf_heap_def
proof (intro allI impI)
  fix s assume s: "s < length (h @ [obj])"
  show "(\<forall>kc\<in>set (command_subcommands ((h @ [obj]) ! s)).
           s < snd kc \<and> snd kc < length (h @ [obj]) \<and>
           command_parent ((h @ [obj]) ! snd kc) = Some s \<and>
           command_name ((h @ [obj]) ! snd kc) = fst kc) \<and>
        distinct (map fst (command_subcommands ((h @ [obj]) ! s))) \<and>
        distinct (map snd (command_subcommands ((h @ [obj]) ! s)))"
  proof (cases "s < length h")
    case True
    then have eq: "(h @ [obj]) ! s = h ! s" by (simp add: nth_append)
    have "\<And>kc. kc \<in> set (command_subcommands (h ! s)) \<Longrightarrow>
           snd kc < length h \<and> (h @ [obj]) ! snd kc = h ! snd kc"
      using wf_heapD(2)[OF wf True] by (simp add: nth_append)
    then show ?thesis
      unfolding eq using wf_heapD[OF wf True] wf_heap_distinct[OF wf True]
      by (auto intro: less_SucI)
  next
    case False
    with s have "s = length h" by simp
    with obj show ?thesis by simp
  qed
qed

lemma wf_heap_modify:
  assumes wf: "wf_heap h"
    and keep: "command_name (f (h ! a)) = command_name (h ! a)"
      "command_parent (f (h ! a)) = command_parent (h ! a)"
      "command_subcommands (f (h ! a)) = command_subcommands (h ! a)"
  shows "wf_heap (modify a f h)"
  unfolding wf_heap_def
proof (intro allI impI)
  let ?h = "modify a f h"
  fix s assume "s < length ?h"
  then have s: "s < length h" by simp
  have same: "\<And>i. i < length h \<Longrightarrow> command_parent (?h ! i) = command_parent (h ! i) \<and>
                 command_name (?h ! i) = command_name (h ! i) \<and>
                 command_subcommands (?h ! i) = command_subcommands (h ! i)"
    using keep by (simp add: modify_nth)
  have "\<And>kc. kc \<in> set (command_subcommands (h ! s)) \<Longrightarrow>
           command_parent (?h ! snd kc) = command_parent (h ! snd kc) \<and>
           command_name (?h ! snd kc) = command_name (h ! snd kc)"
    using wf_heapD(2)[OF wf s] same by blast
  then show "(\<forall>kc\<in>set (command_subcommands (?h ! s)).
           s < snd kc \<and> snd kc < length ?h \<and>
           command_parent (?h ! snd kc) = Some s \<and> command_name (?h ! snd kc) = fst kc) \<and>
        distinct (map fst (command_subcommands (?h ! s))) \<and>
        distinct (map snd (command_subcommands (?h ! s)))"
    using same[OF s] wf_heapD[OF wf s] wf_heap_distinct[OF wf s] by auto
qed

lemma wf_heap_set_subcommand:
  assumes wf: "wf_heap h"
    and a: "a < child" and child: "child < length h"
    and par: "command_parent (h ! child) = Some a"
    and nm: "command_name (h ! child) = k"
    and fresh: "child \<notin> snd ` set (command_subcommands (h ! a))"
  shows "wf_heap (set_subcommand a k child h)"
  unfolding wf_heap_def
proof (intro allI impI)
  let ?h = "set_subcommand a k child h"
  fix s assume "s < length ?h"
  then have s: "s < length h" by (simp add: set_subcommand_def)
  have a_lt: "a < length h" using a child by simp
  have same: "\<And>i. i < length h \<Longrightarrow> command_parent (?h ! i) = command_parent (h ! i) \<and>
                 command_name (?h ! i) = command_name (h ! i)"
    by (simp add: set_subcommand_def modify_nth)
  have len: "length ?h = length h" by (simp add: set_subcommand_def)
  show "(\<forall>kc\<in>set (command_subcommands (?h ! s)).
           s < snd kc \<and> snd kc < length ?h \<and>
           command_parent (?h ! snd kc) = Some s \<and> command_name (?h ! snd kc) = fst kc) \<and>
        distinct (map fst (command_subcommands (?h ! s))) \<and>
        distinct (map snd (command_subcommands (?h ! s)))"
  proof (cases "s = a")
    case False
    then have "?h ! s = h ! s" using s by (simp add: set_subcommand_def modify_nth)
    then show ?thesis using wf s same len unfolding wf_heap_def by auto
  next
    case True
    have subs: "command_subcommands (?h ! s) = AList.update k child (command_subcommands (h ! a))"
      using True a_lt by (simp add: set_subcommand_def modify_nth)
    have old: "\<forall>kc\<in>set (command_subcommands (h ! a)).
           a < snd kc \<and> snd kc < length h \<and>
           command_parent (h ! snd kc) = Some a \<and> command_name (h ! snd kc) = fst kc"
      and d1: "distinct (map fst (command_subcommands (h ! a)))"
      and d2: "distinct (map snd (command_subcommands (h ! a)))"
      using wf a_lt unfolding wf_heap_def by blast+
    have "\<forall>kc\<in>set (AList.update k child (command_subcommands (h ! a))).
           a < snd kc \<and> snd kc < length h \<and>
           command_parent (h ! snd kc) = Some a \<and> command_name (h ! snd kc) = fst kc"
      using old a child par nm update_set_subset[of k child "command_subcommands (h ! a)"]
      by auto
    then have "\<forall>kc\<in>set (command_subcommands (?h ! s)).
           s < snd kc \<and> snd kc < length ?h \<and>
           command_parent (?h ! snd kc) = Some s \<and> command_name (?h ! snd kc) = fst kc"
      unfolding subs using True same len by auto
    moreover have "distinct (map fst (command_subcommands (?h ! s)))"
      unfolding subs using d1 by (simp add: distinct_update)
    moreover have "distinct (map snd (command_subcommands (?h ! s)))"
      unfolding subs using d2 fresh by (rule update_distinct_snd)
    ultimately show ?thesis by blast
  qed
qed

section \<open>An invariant rule for the loop over the subcommands\<close>

lemma subcommands_loop_rule_aux:
  assumes step: "\<And>pre k c rest hc child h1.
       all = pre @ (k, c) # rest \<Longrightarrow> I pre hc \<Longrightarrow> rec k c (Some a) hc = Some (Inr (child, h1)) \<Longrightarrow>
       I (pre @ [(k, c)]) (set_subcommand a k child h1)"
  shows "all = pre @ cs \<Longrightarrow> I pre h \<Longrightarrow> subcommands_loop rec cs a h = Some (Inr h') \<Longrightarrow> I all h'"
proof (induction cs arbitrary: pre h)
  case Nil
  then show ?case by simp
next
  case (Cons kc cs)
  obtain k c where kc: "kc = (k, c)" by (cases kc)
  from Cons.prems(3) obtain child h1 where
    call: "rec k c (Some a) h = Some (Inr (child, h1))"
    and rest: "subcommands_loop rec cs a (set_subcommand a k child h1) = Some (Inr h')"
    by (auto simp: kc split: option.splits sum.splits)
  have "I (pre @ [(k, c)]) (set_subcommand a k child h1)"
    using step[of pre k c cs h child h1] Cons.prems(1,2) call by (simp add: kc)
  moreover have "all = (pre @ [(k, c)]) @ cs" using Cons.prems(1) by (simp add: kc)
  ultimately show ?case using Cons.IH rest by blast
qed

lemma subcommands_loop_rule:
  assumes "subcommands_loop rec cs a h = Some (Inr h')"
    and "I [] h"
    and "\<And>pre k c rest hc child h1.
       cs = pre @ (k, c) # rest \<Longrightarrow> I pre hc \<Longrightarrow> rec k c (Some a) hc = Some (Inr (child, h1)) \<Longrightarrow>
       I (pre @ [(k, c)]) (set_subcommand a k child h1)"
  shows "I cs h'"
  using subcommands_loop_rule_aux[of cs I rec a "[]" cs h h'] assms by simp


section \<open>What \<open>process_command\<close> leaves in the store\<close>

lemma process_command_Suc_Inr:
  assumes "process_command (Suc n) nm c par h = Some (Inr (a, h'))"
  shows "a = length h \<and>
    (\<exists>h2. process_params (obj_params c) (length h)
           (h @ [\<lparr>command_name = nm, command_function = obj_callback c,
                   command_docstring = obj_help c, command_options = [], command_arguments = [],
                   command_subcommands = [], command_parent = par\<rparr>]) = Inr h2 \<and>
       (case obj_commands c of
          None \<Rightarrow> h' = h2
        | Some cs \<Rightarrow> subcommands_loop (process_command n) cs (length h) h2 = Some (Inr h')))"
  using assms
  by (auto simp: alloc_def split: sum.splits option.splits)

lemma command_post_start:
  assumes wf: "wf_heap h" and subs: "command_subcommands new = []"
  shows "command_post (command_name new) (command_parent new) h (length h)
           (modify (length h)
              (\<lambda>s. s\<lparr>command_options := command_options s @ os,
                      command_arguments := command_arguments s @ as\<rparr>) (h @ [new]))"
proof -
  let ?h2 = "modify (length h)
              (\<lambda>s. s\<lparr>command_options := command_options s @ os,
                      command_arguments := command_arguments s @ as\<rparr>) (h @ [new])"
  have "wf_heap (h @ [new])" using wf subs by (rule wf_heap_alloc)
  then have "wf_heap ?h2" by (rule wf_heap_modify) simp_all
  moreover have "\<forall>i<length h. ?h2 ! i = h ! i" by (simp add: modify_nth nth_append)
  moreover have "command_name (?h2 ! length h) = command_name new"
    "command_parent (?h2 ! length h) = command_parent new"
    by (simp_all add: modify_nth)
  ultimately show ?thesis unfolding command_post_def by simp
qed

lemma command_post_step:
  assumes pc: "command_post nm par h a hc"
    and p1: "command_post k (Some a) hc child h1"
  shows "command_post nm par h a (set_subcommand a k child h1)"
proof -
  from pc have a: "a = length h" and wfc: "wf_heap hc" and alt: "a < length hc"
    and oldc: "\<forall>i<length h. hc ! i = h ! i"
    and atc: "command_name (hc ! a) = nm" "command_parent (hc ! a) = par"
    unfolding command_post_def by blast+
  from p1 have child: "child = length hc" and clt: "child < length h1"
    and old1: "\<forall>i<length hc. h1 ! i = hc ! i" and wf1: "wf_heap h1"
    and at1: "command_name (h1 ! child) = k" "command_parent (h1 ! child) = Some a"
    unfolding command_post_def by blast+
  have a1: "h1 ! a = hc ! a" using old1 alt by simp
  have fresh: "child \<notin> snd ` set (command_subcommands (h1 ! a))"
  proof
    assume "child \<in> snd ` set (command_subcommands (h1 ! a))"
    then obtain kc where kc: "kc \<in> set (command_subcommands (hc ! a))" "snd kc = child"
      unfolding a1 by auto
    from wf_heapD(2)[OF wfc alt kc(1)] kc(2) child show False by simp
  qed
  have wf': "wf_heap (set_subcommand a k child h1)"
    using wf1 _ clt at1(2) at1(1) fresh
    by (rule wf_heap_set_subcommand) (simp add: child alt)
  show ?thesis
    unfolding command_post_def
  proof (intro conjI allI impI)
    show "a = length h" by (rule a)
    show "a < length (set_subcommand a k child h1)"
      using alt clt child by (simp add: set_subcommand_def)
    show "wf_heap (set_subcommand a k child h1)" by (rule wf')
    show "command_name (set_subcommand a k child h1 ! a) = nm"
      using alt clt child atc a1 by (simp add: set_subcommand_def modify_nth)
    show "command_parent (set_subcommand a k child h1 ! a) = par"
      using alt clt child atc a1 by (simp add: set_subcommand_def modify_nth)
  next
    fix i assume i: "i < length h"
    then have "i < length hc" "i \<noteq> a" "i < length h1" using a alt clt child by simp_all
    then show "set_subcommand a k child h1 ! i = h ! i"
      using old1 oldc i by (simp add: set_subcommand_def modify_nth)
  qed
qed

lemma process_command_post:
  "process_command n nm c par h = Some (Inr (a, h')) \<Longrightarrow> wf_heap h \<Longrightarrow> command_post nm par h a h'"
proof (induction n arbitrary: nm c par h a h')
  case 0
  then show ?case by simp
next
  case (Suc n)
  define new where "new = \<lparr>command_name = nm, command_function = obj_callback c,
                   command_docstring = obj_help c, command_options = [], command_arguments = [],
                   command_subcommands = [], command_parent = par\<rparr>"
  from process_command_Suc_Inr[OF Suc.prems(1)] obtain h2 where a: "a = length h"
    and pp: "process_params (obj_params c) a (h @ [new]) = Inr h2"
    and cases: "case obj_commands c of
          None \<Rightarrow> h' = h2
        | Some cs \<Rightarrow> subcommands_loop (process_command n) cs a h2 = Some (Inr h')"
    unfolding new_def by auto
  from process_params_spec[OF pp] obtain os as where
    h2: "h2 = modify a (\<lambda>s. s\<lparr>command_options := command_options s @ os,
                                  command_arguments := command_arguments s @ as\<rparr>) (h @ [new])"
    by blast
  have post2: "command_post nm par h a h2"
    using command_post_start[OF Suc.prems(2), where new=new and os=os and as=as]
    by (simp add: h2 a new_def)
  show ?case
  proof (cases "obj_commands c")
    case None
    with cases post2 show ?thesis by simp
  next
    case (Some cs)
    with cases have loop: "subcommands_loop (process_command n) cs a h2 = Some (Inr h')" by simp
    define I where "I = (\<lambda>(pre :: (CommandName \<times> click_command) list) hc. command_post nm par h a hc)"
    have "I cs h'"
    proof (rule subcommands_loop_rule[OF loop])
      show "I [] h2" using post2 by (simp add: I_def)
    next
      fix pre k c' rest hc child h1
      assume inv: "I pre hc"
        and call: "process_command n k c' (Some a) hc = Some (Inr (child, h1))"
      from inv have pc: "command_post nm par h a hc" by (simp add: I_def)
      then have wfc: "wf_heap hc" unfolding command_post_def by blast
      from Suc.IH[OF call wfc] have "command_post k (Some a) hc child h1" .
      with pc have "command_post nm par h a (set_subcommand a k child h1)"
        by (rule command_post_step)
      then show "I (pre @ [(k, c')]) (set_subcommand a k child h1)" by (simp add: I_def)
    qed
    then show ?thesis by (simp add: I_def)
  qed
qed

section \<open>The loop over the top-level commands\<close>

lemma app_loop_rule_aux:
  assumes step: "\<And>pre k c rest d hc a h1.
       all = pre @ (k, c) # rest \<Longrightarrow> I pre d hc \<Longrightarrow> rec k c None hc = Some (Inr (a, h1)) \<Longrightarrow>
       I (pre @ [(k, c)]) (AList.update k a d) h1"
  shows "all = pre @ cs \<Longrightarrow> I pre data h \<Longrightarrow> app_loop rec cs data h = Some (Inr (data', h')) \<Longrightarrow>
         I all data' h'"
proof (induction cs arbitrary: pre data h)
  case Nil
  then show ?case by simp
next
  case (Cons kc cs)
  obtain k c where kc: "kc = (k, c)" by (cases kc)
  from Cons.prems(3) obtain a h1 where
    call: "rec k c None h = Some (Inr (a, h1))"
    and rest: "app_loop rec cs (AList.update k a data) h1 = Some (Inr (data', h'))"
    by (auto simp: kc split: option.splits sum.splits)
  have "I (pre @ [(k, c)]) (AList.update k a data) h1"
    using step[of pre k c cs data h a h1] Cons.prems(1,2) call by (simp add: kc)
  moreover have "all = (pre @ [(k, c)]) @ cs" using Cons.prems(1) by (simp add: kc)
  ultimately show ?case using Cons.IH rest by blast
qed

lemma app_loop_rule:
  assumes "app_loop rec cs data h = Some (Inr (data', h'))"
    and "I [] data h"
    and "\<And>pre k c rest d hc a h1.
       cs = pre @ (k, c) # rest \<Longrightarrow> I pre d hc \<Longrightarrow> rec k c None hc = Some (Inr (a, h1)) \<Longrightarrow>
       I (pre @ [(k, c)]) (AList.update k a d) h1"
  shows "I cs data' h'"
  using app_loop_rule_aux[of cs I rec "[]" cs data h data' h'] assms by simp

lemma introspect_Inr:
  assumes "introspect_click_app n app = Some (Inr (data, h))"
  obtains cs where "obj_commands app = Some cs"
    and "app_loop (process_command n) cs [] [] = Some (Inr (data, h))"
  using assms by (auto simp: introspect_click_app_def split: option.splits)

lemma roots_ok_step:
  assumes ok: "roots_ok d hc" and call: "process_command n k c None hc = Some (Inr (a, h1))"
  shows "roots_ok (AList.update k a d) h1"
proof -
  from ok have wfc: "wf_heap hc"
    and rts: "\<forall>ka\<in>set d. snd ka < length hc \<and> command_parent (hc ! snd ka) = None \<and>
                      command_name (hc ! snd ka) = fst ka"
    and d1: "distinct (map fst d)" and d2: "distinct (map snd d)"
    unfolding roots_ok_def by blast+
  from process_command_post[OF call wfc]
  have a: "a = length hc" and alt: "a < length h1" and old: "\<forall>i<length hc. h1 ! i = hc ! i"
    and wf1: "wf_heap h1" and at: "command_name (h1 ! a) = k" "command_parent (h1 ! a) = None"
    unfolding command_post_def by blast+
  have "\<forall>ka\<in>set d. snd ka < length h1 \<and> command_parent (h1 ! snd ka) = None \<and>
                      command_name (h1 ! snd ka) = fst ka"
    using rts old a alt by auto
  then have "\<forall>ka\<in>set (AList.update k a d). snd ka < length h1 \<and>
                command_parent (h1 ! snd ka) = None \<and> command_name (h1 ! snd ka) = fst ka"
    using update_set_subset[of k a d] alt at by auto
  moreover have "a \<notin> snd ` set d" using rts a by auto
  then have "distinct (map snd (AList.update k a d))" using d2 by (simp add: update_distinct_snd)
  moreover have "distinct (map fst (AList.update k a d))" using d1 by (simp add: distinct_update)
  ultimately show ?thesis using wf1 unfolding roots_ok_def by blast
qed

lemma introspect_roots_ok:
  assumes "introspect_click_app n app = Some (Inr (data, h))"
  shows "roots_ok data h"
proof -
  from assms obtain cs where
    loop: "app_loop (process_command n) cs [] [] = Some (Inr (data, h))"
    by (rule introspect_Inr)
  define I where "I = (\<lambda>(pre :: (CommandName \<times> click_command) list) d hc. roots_ok d hc)"
  have "I cs data h"
  proof (rule app_loop_rule[OF loop])
    show "I [] [] []" by (simp add: I_def roots_ok_def wf_heap_Nil)
  next
    fix pre k c rest d hc a h1
    assume "I pre d hc" and "process_command n k c None hc = Some (Inr (a, h1))"
    then show "I (pre @ [(k, c)]) (AList.update k a d) h1"
      using roots_ok_step by (simp add: I_def)
  qed
  then show ?thesis by (simp add: I_def)
qed

lemma nodes_in_heap:
  assumes wf: "wf_heap h" and roots: "\<forall>r\<in>set roots. r < length h"
  shows "s \<in> set (nodes_at_depth h roots d) \<Longrightarrow> s < length h"
proof (induction d arbitrary: s)
  case 0
  with roots show ?case by simp
next
  case (Suc d)
  then obtain p kc where p: "p \<in> set (nodes_at_depth h roots d)"
    and kc: "kc \<in> set (command_subcommands (h ! p))" and s: "s = snd kc"
    by auto
  from Suc.IH[OF p] have "p < length h" .
  from wf_heapD(2)[OF wf this kc] s show ?case by simp
qed

section \<open>The scenario of the specification\<close>

lemma tool_app_run: "introspect_click_app 2 tool_app = Some (Inr (tool_data, tool_heap))"
  by (simp add: introspect_click_app_def tool_app_def tool_data_def tool_heap_def alloc_def
      opt_force_def arg_path_def append_option_def append_argument_def set_subcommand_def
      modify_def resolve_type_name_def read_required_def read_default_def choices_of_def
      numeral_2_eq_2)

section \<open>The loop of \<open>path_from_root\<close>\<close>

lemma path_loop_root: "command_parent (h ! a) = None \<Longrightarrow> path_loop h a acc = Some acc"
  by (subst path_loop.simps) simp

lemma path_loop_step:
  "command_parent (h ! a) = Some p \<Longrightarrow> path_loop h a acc = path_loop h p (acc @ [p])"
  by (subst path_loop.simps) simp

lemma parent_linked_snoc:
  assumes "parent_linked h p" and "p \<noteq> []"
    and "command_parent (h ! a) = Some (last p)"
    and "a \<in> snd ` set (command_subcommands (h ! last p))"
  shows "parent_linked h (p @ [a])"
  using assms by (induction h p rule: parent_linked.induct) auto

lemma path_of_node:
  assumes wf: "wf_heap h"
    and roots: "\<forall>r\<in>set roots. r < length h \<and> command_parent (h ! r) = None"
  shows "a \<in> set (nodes_at_depth h roots d) \<Longrightarrow>
         \<exists>p. (\<forall>acc. path_loop h a acc = Some (acc @ tl (rev p))) \<and> p \<noteq> [] \<and> last p = a \<and>
             length p = Suc d \<and> command_parent (h ! hd p) = None \<and> parent_linked h p"
proof (induction d arbitrary: a)
  case 0
  then have "command_parent (h ! a) = None" using roots by simp
  then have "(\<forall>acc. path_loop h a acc = Some (acc @ tl (rev [a]))) \<and> [a] \<noteq> [] \<and> last [a] = a \<and>
             length [a] = Suc 0 \<and> command_parent (h ! hd [a]) = None \<and> parent_linked h [a]"
    by (simp add: path_loop_root)
  then show ?case by blast
next
  case (Suc d)
  then obtain s kc where s: "s \<in> set (nodes_at_depth h roots d)"
    and kc: "kc \<in> set (command_subcommands (h ! s))" and a: "a = snd kc"
    by auto
  have slt: "s < length h" using nodes_in_heap[OF wf _ s] roots by blast
  have par: "command_parent (h ! a) = Some s" using wf_heapD(3)[OF wf slt kc] a by simp
  from Suc.IH[OF s] obtain p where
    loop: "\<And>acc. path_loop h s acc = Some (acc @ tl (rev p))"
    and ne: "p \<noteq> []" and last: "last p = s" and len: "length p = Suc d"
    and root: "command_parent (h ! hd p) = None" and linked: "parent_linked h p"
    by blast
  have revp: "rev p = s # tl (rev p)"
    using ne last by (cases "rev p") (auto simp: last_rev[symmetric] simp del: last_rev)
  have "\<And>acc. path_loop h a acc = Some (acc @ tl (rev (p @ [a])))"
  proof -
    fix acc
    have "path_loop h a acc = path_loop h s (acc @ [s])" using par by (rule path_loop_step)
    also have "\<dots> = Some ((acc @ [s]) @ tl (rev p))" by (rule loop)
    also have "(acc @ [s]) @ tl (rev p) = acc @ rev p" using revp by (metis append.assoc append_Cons append_Nil)
    finally show "path_loop h a acc = Some (acc @ tl (rev (p @ [a])))" by simp
  qed
  moreover have "parent_linked h (p @ [a])"
    using linked ne par kc a last by (intro parent_linked_snoc) auto
  moreover have "hd (p @ [a]) = hd p" using ne by simp
  ultimately have "(\<forall>acc. path_loop h a acc = Some (acc @ tl (rev (p @ [a])))) \<and> p @ [a] \<noteq> [] \<and>
       last (p @ [a]) = a \<and> length (p @ [a]) = Suc (Suc d) \<and>
       command_parent (h ! hd (p @ [a])) = None \<and> parent_linked h (p @ [a])"
    using len root by simp
  then show ?case by blast
qed

section \<open>Every command and its schema\<close>

lemma tree_all_mono:
  assumes "\<And>c s. Q c s \<Longrightarrow> Q' c s"
  shows "tree_all n Q h c a \<Longrightarrow> tree_all n Q' h c a"
proof (induction n arbitrary: c a)
  case 0
  then show ?case by simp
next
  case (Suc n)
  show ?case
  proof (cases "obj_commands c")
    case None
    with Suc.prems assms show ?thesis by simp
  next
    case (Some cs)
    with Suc.prems have l: "list_all2 (\<lambda>kc ka. fst ka = fst kc \<and> tree_all n Q h (snd kc) (snd ka))
             cs (command_subcommands (h ! a))" by simp
    have "list_all2 (\<lambda>kc ka. fst ka = fst kc \<and> tree_all n Q' h (snd kc) (snd ka))
             cs (command_subcommands (h ! a))"
      using l by (rule list_all2_mono) (simp add: Suc.IH)
    with Suc.prems Some assms show ?thesis by simp
  qed
qed

lemma forest_all_mono:
  assumes "\<And>c s. Q c s \<Longrightarrow> Q' c s"
  shows "forest_all n Q h cs m \<Longrightarrow> forest_all n Q' h cs m"
  unfolding forest_all_def
  by (erule list_all2_mono) (simp add: tree_all_mono[of Q Q', OF assms])

lemma tree_all_frame:
  assumes ord: "\<forall>s<length h. \<forall>kc\<in>set (command_subcommands (h ! s)). s < snd kc"
    and len: "length h \<le> length h2"
  shows "tree_all n Q h c a \<Longrightarrow> (\<forall>i. a \<le> i \<and> i < length h \<longrightarrow> h2 ! i = h ! i) \<Longrightarrow>
         tree_all n Q h2 c a"
proof (induction n arbitrary: c a)
  case 0
  then show ?case by simp
next
  case (Suc n)
  from Suc.prems(1) have alt: "a < length h" and q: "Q c (h ! a)" by simp_all
  have eq: "h2 ! a = h ! a" using Suc.prems(2) alt by simp
  show ?case
  proof (cases "obj_commands c")
    case None
    with alt q eq len show ?thesis by simp
  next
    case (Some cs)
    with Suc.prems have l: "list_all2 (\<lambda>kc ka. fst ka = fst kc \<and> tree_all n Q h (snd kc) (snd ka))
             cs (command_subcommands (h ! a))" by simp
    have "list_all2 (\<lambda>kc ka. fst ka = fst kc \<and> tree_all n Q h2 (snd kc) (snd ka))
             cs (command_subcommands (h ! a))"
      using l
    proof (rule list.rel_mono_strong)
      fix kc ka
      assume ka: "ka \<in> set (command_subcommands (h ! a))"
        and r: "fst ka = fst kc \<and> tree_all n Q h (snd kc) (snd ka)"
      from ord alt ka have "a < snd ka" by blast
      then have "\<forall>i. snd ka \<le> i \<and> i < length h \<longrightarrow> h2 ! i = h ! i"
        using Suc.prems(2) by simp
      with r Suc.IH show "fst ka = fst kc \<and> tree_all n Q h2 (snd kc) (snd ka)" by blast
    qed
    with alt q eq len Some show ?thesis by simp
  qed
qed

lemma wf_heap_ordered:
  "wf_heap h \<Longrightarrow> \<forall>s<length h. \<forall>kc\<in>set (command_subcommands (h ! s)). s < snd kc"
  using wf_heapD(1) by blast

lemma loop_step_frame:
  assumes pc: "command_post nm par h a hc" and p1: "command_post k (Some a) hc child h1"
  shows "tree_all n Q hc c1 a1 \<Longrightarrow> a < a1 \<Longrightarrow> tree_all n Q (set_subcommand a k child h1) c1 a1"
    and "tree_all n Q h1 c2 a2 \<Longrightarrow> a < a2 \<Longrightarrow> tree_all n Q (set_subcommand a k child h1) c2 a2"
    and "set_subcommand a k child h1 ! a =
           (hc ! a)\<lparr>command_subcommands := AList.update k child (command_subcommands (hc ! a))\<rparr>"
proof -
  from pc have wfc: "wf_heap hc" and alt: "a < length hc"
    unfolding command_post_def by blast+
  from p1 have child: "child = length hc" and clt: "child < length h1"
    and old1: "\<forall>i<length hc. h1 ! i = hc ! i" and wf1: "wf_heap h1"
    unfolding command_post_def by blast+
  let ?h = "set_subcommand a k child h1"
  have len: "length ?h = length h1" by (simp add: set_subcommand_def)
  have other: "\<And>i. i < length h1 \<Longrightarrow> i \<noteq> a \<Longrightarrow> ?h ! i = h1 ! i"
    by (simp add: set_subcommand_def modify_nth)
  show "set_subcommand a k child h1 ! a =
           (hc ! a)\<lparr>command_subcommands := AList.update k child (command_subcommands (hc ! a))\<rparr>"
    using alt clt child old1 by (simp add: set_subcommand_def modify_nth)
  {
    assume t: "tree_all n Q hc c1 a1" and lt: "a < a1"
    have "\<forall>i. a1 \<le> i \<and> i < length hc \<longrightarrow> ?h ! i = hc ! i"
      using other old1 lt child clt by auto
    with t show "tree_all n Q ?h c1 a1"
      using tree_all_frame[OF wf_heap_ordered[OF wfc], of ?h n Q c1 a1] len child clt by simp
  }
  {
    assume t: "tree_all n Q h1 c2 a2" and lt: "a < a2"
    have "\<forall>i. a2 \<le> i \<and> i < length h1 \<longrightarrow> ?h ! i = h1 ! i"
      using other lt by auto
    with t show "tree_all n Q ?h c2 a2"
      using tree_all_frame[OF wf_heap_ordered[OF wf1], of ?h n Q c2 a2] len by simp
  }
qed

lemma list_all2_keys:
  "list_all2 (\<lambda>kc ka. fst ka = fst kc \<and> R kc ka) xs ys \<Longrightarrow> map fst ys = map fst xs"
  by (induction xs ys rule: list_all2_induct) auto

lemma process_command_tree:
  "process_command n nm c par h = Some (Inr (a, h')) \<Longrightarrow> wf_heap h \<Longrightarrow> dict_tree n c \<Longrightarrow>
   tree_all n node_ok h' c a"
proof (induction n arbitrary: nm c par h a h')
  case 0
  then show ?case by simp
next
  case (Suc n)
  define new where "new = \<lparr>command_name = nm, command_function = obj_callback c,
                   command_docstring = obj_help c, command_options = [], command_arguments = [],
                   command_subcommands = [], command_parent = par\<rparr>"
  from process_command_Suc_Inr[OF Suc.prems(1)] obtain h2 where a: "a = length h"
    and pp: "process_params (obj_params c) a (h @ [new]) = Inr h2"
    and cases: "case obj_commands c of
          None \<Rightarrow> h' = h2
        | Some cs \<Rightarrow> subcommands_loop (process_command n) cs a h2 = Some (Inr h')"
    unfolding new_def by auto
  from process_params_spec[OF pp] obtain os as where
    h2: "h2 = modify a (\<lambda>s. s\<lparr>command_options := command_options s @ os,
                                  command_arguments := command_arguments s @ as\<rparr>) (h @ [new])"
    and os: "list_all2 option_rel (filter option_like (obj_params c)) os"
    and as: "list_all2 argument_rel (filter positional (obj_params c)) as"
    by blast
  have post2: "command_post nm par h a h2"
    using command_post_start[OF Suc.prems(2), where new=new and os=os and as=as]
    by (simp add: h2 a new_def)
  have node2: "h2 ! a = new\<lparr>command_options := os, command_arguments := as\<rparr>"
    by (simp add: h2 a modify_nth new_def)
  define fields where "fields = (\<lambda>s :: CommandSchema. command_function s = obj_callback c \<and>
      command_docstring s = obj_help c \<and> command_options s = os \<and> command_arguments s = as)"
  have fields2: "fields (h2 ! a)" by (simp add: fields_def node2 new_def)
  have alt2: "a < length h2" using post2 unfolding command_post_def by blast
  show ?case
  proof (cases "obj_commands c")
    case None
    with cases have "h' = h2" by simp
    moreover have "node_ok c (h2 ! a)"
      using os as None by (simp add: node_ok_def node2 new_def)
    ultimately show ?thesis using None alt2 by simp
  next
    case (Some cs)
    with cases have loop: "subcommands_loop (process_command n) cs a h2 = Some (Inr h')" by simp
    from Suc.prems(3) Some have dist: "distinct (map fst cs)"
      and dict: "\<And>kc. kc \<in> set cs \<Longrightarrow> dict_tree n (snd kc)" by simp_all
    define I where "I = (\<lambda>pre hc. command_post nm par h a hc \<and> fields (hc ! a) \<and>
        list_all2 (\<lambda>kc ka. fst ka = fst kc \<and> tree_all n node_ok hc (snd kc) (snd ka))
          pre (command_subcommands (hc ! a)))"
    have "I cs h'"
    proof (rule subcommands_loop_rule[OF loop])
      show "I [] h2" using post2 fields2 by (simp add: I_def node2 new_def)
    next
      fix pre k c' rest hc child h1
      assume split: "cs = pre @ (k, c') # rest" and inv: "I pre hc"
        and call: "process_command n k c' (Some a) hc = Some (Inr (child, h1))"
      from inv have pc: "command_post nm par h a hc" and fc: "fields (hc ! a)"
        and prev: "list_all2 (\<lambda>kc ka. fst ka = fst kc \<and> tree_all n node_ok hc (snd kc) (snd ka))
          pre (command_subcommands (hc ! a))"
        by (simp_all add: I_def)
      from pc have wfc: "wf_heap hc" and alt: "a < length hc"
        unfolding command_post_def by blast+
      from process_command_post[OF call wfc] have p1: "command_post k (Some a) hc child h1" .
      then have child: "child = length hc" unfolding command_post_def by blast
      let ?h = "set_subcommand a k child h1"
      note frame = loop_step_frame[OF pc p1]
      have "dict_tree n c'" using dict[of "(k, c')"] split by simp
      from Suc.IH[OF call wfc this] have new_tree: "tree_all n node_ok h1 c' child" .
      have keys: "map fst (command_subcommands (hc ! a)) = map fst pre"
        using prev by (rule list_all2_keys)
      have "k \<notin> fst ` set pre" using dist split by auto
      then have "k \<notin> fst ` set (command_subcommands (hc ! a))"
        using keys by (metis set_map)
      then have subs: "command_subcommands (?h ! a) = command_subcommands (hc ! a) @ [(k, child)]"
        by (simp add: frame(3) update_fresh)
      have "list_all2 (\<lambda>kc ka. fst ka = fst kc \<and> tree_all n node_ok ?h (snd kc) (snd ka))
          pre (command_subcommands (hc ! a))"
        using prev
      proof (rule list.rel_mono_strong)
        fix kc ka
        assume ka: "ka \<in> set (command_subcommands (hc ! a))"
          and r: "fst ka = fst kc \<and> tree_all n node_ok hc (snd kc) (snd ka)"
        from wf_heapD(1)[OF wfc alt ka] have "a < snd ka" .
        with r frame(1) show "fst ka = fst kc \<and> tree_all n node_ok ?h (snd kc) (snd ka)" by blast
      qed
      moreover have "tree_all n node_ok ?h c' child"
        using new_tree by (rule frame(2)) (simp add: child alt)
      ultimately have "list_all2 (\<lambda>kc ka. fst ka = fst kc \<and> tree_all n node_ok ?h (snd kc) (snd ka))
          (pre @ [(k, c')]) (command_subcommands (?h ! a))"
        unfolding subs by (intro list_all2_appendI) simp_all
      moreover have "fields (?h ! a)" using fc by (simp add: frame(3) fields_def)
      moreover have "command_post nm par h a ?h" using pc p1 by (rule command_post_step)
      ultimately show "I (pre @ [(k, c')]) ?h" by (simp add: I_def)
    qed
    then have pc: "command_post nm par h a h'" and f: "fields (h' ! a)"
      and l: "list_all2 (\<lambda>kc ka. fst ka = fst kc \<and> tree_all n node_ok h' (snd kc) (snd ka))
          cs (command_subcommands (h' ! a))"
      by (simp_all add: I_def)
    have "node_ok c (h' ! a)" using f os as Some by (simp add: node_ok_def fields_def)
    moreover have "a < length h'" using pc unfolding command_post_def by blast
    ultimately show ?thesis using l Some by simp
  qed
qed

lemma introspect_forest:
  assumes run: "introspect_click_app n app = Some (Inr (data, h))"
    and cs: "obj_commands app = Some cs"
    and dict: "dict_tree (Suc n) app"
  shows "forest_all n node_ok h cs data"
proof -
  from run cs have loop: "app_loop (process_command n) cs [] [] = Some (Inr (data, h))"
    by (simp add: introspect_click_app_def)
  from dict cs have dist: "distinct (map fst cs)"
    and dict': "\<And>kc. kc \<in> set cs \<Longrightarrow> dict_tree n (snd kc)" by simp_all
  define I where "I = (\<lambda>pre d hc. roots_ok d hc \<and> forest_all n node_ok hc pre d)"
  have "I cs data h"
  proof (rule app_loop_rule[OF loop])
    show "I [] [] []" by (simp add: I_def roots_ok_def wf_heap_Nil forest_all_def)
  next
    fix pre k c rest d hc a h1
    assume split: "cs = pre @ (k, c) # rest" and inv: "I pre d hc"
      and call: "process_command n k c None hc = Some (Inr (a, h1))"
    from inv have ok: "roots_ok d hc"
      and prev: "list_all2 (\<lambda>kc ka. fst ka = fst kc \<and> tree_all n node_ok hc (snd kc) (snd ka)) pre d"
      by (simp_all add: I_def forest_all_def)
    from ok have wfc: "wf_heap hc" and rts: "\<forall>ka\<in>set d. snd ka < length hc"
      unfolding roots_ok_def by blast+
    from process_command_post[OF call wfc]
    have len: "length hc \<le> length h1" and old: "\<forall>i<length hc. h1 ! i = hc ! i"
      unfolding command_post_def by auto
    have "dict_tree n c" using dict'[of "(k, c)"] split by simp
    from process_command_tree[OF call wfc this] have new_tree: "tree_all n node_ok h1 c a" .
    have keys: "map fst d = map fst pre" using prev by (rule list_all2_keys)
    have "k \<notin> fst ` set pre" using dist split by auto
    then have "k \<notin> fst ` set d" using keys by (metis set_map)
    then have upd: "AList.update k a d = d @ [(k, a)]" by (rule update_fresh)
    have "list_all2 (\<lambda>kc ka. fst ka = fst kc \<and> tree_all n node_ok h1 (snd kc) (snd ka)) pre d"
      using prev
    proof (rule list_all2_mono)
      fix kc ka
      assume r: "fst ka = fst kc \<and> tree_all n node_ok hc (snd kc) (snd ka)"
      then have "tree_all n node_ok h1 (snd kc) (snd ka)"
        using tree_all_frame[OF wf_heap_ordered[OF wfc] len, of n node_ok "snd kc" "snd ka"] old
        by simp
      with r show "fst ka = fst kc \<and> tree_all n node_ok h1 (snd kc) (snd ka)" by simp
    qed
    then have "forest_all n node_ok h1 (pre @ [(k, c)]) (AList.update k a d)"
      unfolding upd forest_all_def using new_tree by (intro list_all2_appendI) simp_all
    moreover have "roots_ok (AList.update k a d) h1" using ok call by (rule roots_ok_step)
    ultimately show "I (pre @ [(k, c)]) (AList.update k a d) h1" by (simp add: I_def)
  qed
  then show ?thesis by (simp add: I_def)
qed

lemma tree_all_keys:
  "tree_all n Q h c a \<Longrightarrow>
   tree_all n (\<lambda>c s. Q c s \<and>
     (\<forall>cs. obj_commands c = Some cs \<longrightarrow> map fst (command_subcommands s) = map fst cs)) h c a"
proof (induction n arbitrary: c a)
  case 0
  then show ?case by simp
next
  case (Suc n)
  show ?case
  proof (cases "obj_commands c")
    case None
    with Suc.prems show ?thesis by simp
  next
    case (Some cs)
    with Suc.prems have l: "list_all2 (\<lambda>kc ka. fst ka = fst kc \<and> tree_all n Q h (snd kc) (snd ka))
             cs (command_subcommands (h ! a))" by simp
    have keys: "map fst (command_subcommands (h ! a)) = map fst cs"
      using l by (rule list_all2_keys)
    have "list_all2 (\<lambda>kc ka. fst ka = fst kc \<and> tree_all n (\<lambda>c s. Q c s \<and>
     (\<forall>cs. obj_commands c = Some cs \<longrightarrow> map fst (command_subcommands s) = map fst cs)) h (snd kc) (snd ka))
             cs (command_subcommands (h ! a))"
      using l by (rule list_all2_mono) (simp add: Suc.IH)
    with Suc.prems Some keys show ?thesis by simp
  qed
qed

section \<open>The second example\<close>

lemma demo_app_run: "introspect_click_app 2 demo_app = Some (Inr (demo_data, demo_heap))"
  by (simp add: introspect_click_app_def demo_app_def demo_commands_def demo_data_def
      demo_heap_def alloc_def opt_force_def arg_path_def opt_color_def grp_param_def arg_mode_def
      append_option_def append_argument_def set_subcommand_def
      modify_def resolve_type_name_def read_required_def read_default_def choices_of_def
      numeral_2_eq_2)

lemma demo_app_commands: "obj_commands demo_app = Some demo_commands"
  by (simp add: demo_app_def)

lemma demo_app_dict: "dict_tree (Suc 2) demo_app"
  by (simp add: demo_app_def demo_commands_def numeral_2_eq_2)

section \<open>Lists of parameters\<close>

lemma list_all2_set2: "list_all2 R xs ys \<Longrightarrow> y \<in> set ys \<Longrightarrow> \<exists>x\<in>set xs. R x y"
  by (induction xs ys rule: list_all2_induct) auto

lemma length_filter_partition:
  assumes "\<forall>p\<in>set ps. option_like p \<or> positional p"
  shows "length (filter option_like ps) + length (filter positional ps) = length ps"
proof -
  have "filter positional ps = filter (\<lambda>p. \<not> option_like p) ps"
    using assms by (intro filter_cong) (auto simp: option_like_def positional_def)
  then show ?thesis by (simp add: sum_length_filter_compl)
qed

section \<open>The walk returns on finite trees\<close>

lemma subcommands_loop_returns:
  assumes "\<forall>kc\<in>set cs. \<forall>par h. \<exists>r. rec (fst kc) (snd kc) par h = Some r"
  shows "\<exists>r. subcommands_loop rec cs a h = Some r"
  using assms
proof (induction cs arbitrary: h)
  case Nil
  then show ?case by simp
next
  case (Cons kc cs)
  obtain k c where kc: "kc = (k, c)" by (cases kc)
  from Cons.prems obtain r where r: "rec k c (Some a) h = Some r" by (fastforce simp: kc)
  show ?case
  proof (cases r)
    case (Inl e)
    with r show ?thesis by (simp add: kc)
  next
    case (Inr p)
    obtain child h1 where p: "p = (child, h1)" by (cases p)
    from Cons.IH[of "set_subcommand a k child h1"] Cons.prems
    obtain r' where "subcommands_loop rec cs a (set_subcommand a k child h1) = Some r'"
      by auto
    with r Inr p show ?thesis by (simp add: kc)
  qed
qed

lemma app_loop_returns:
  assumes "\<forall>kc\<in>set cs. \<forall>par h. \<exists>r. rec (fst kc) (snd kc) par h = Some r"
  shows "\<exists>r. app_loop rec cs data h = Some r"
  using assms
proof (induction cs arbitrary: data h)
  case Nil
  then show ?case by simp
next
  case (Cons kc cs)
  obtain k c where kc: "kc = (k, c)" by (cases kc)
  from Cons.prems obtain r where r: "rec k c None h = Some r" by (fastforce simp: kc)
  show ?case
  proof (cases r)
    case (Inl e)
    with r show ?thesis by (simp add: kc)
  next
    case (Inr p)
    obtain a h1 where p: "p = (a, h1)" by (cases p)
    from Cons.IH[of "AList.update k a data" h1] Cons.prems
    obtain r' where "app_loop rec cs (AList.update k a data) h1 = Some r'"
      by auto
    with r Inr p show ?thesis by (simp add: kc)
  qed
qed

lemma process_command_returns:
  "within_depth n c \<Longrightarrow> \<exists>r. process_command n nm c par h = Some r"
proof (induction n arbitrary: nm c par h)
  case 0
  then show ?case by simp
next
  case (Suc n)
  define new where "new = \<lparr>command_name = nm, command_function = obj_callback c,
                   command_docstring = obj_help c, command_options = [], command_arguments = [],
                   command_subcommands = [], command_parent = par\<rparr>"
  show ?case
  proof (cases "process_params (obj_params c) (length h) (h @ [new])")
    case (Inl e)
    then show ?thesis by (simp add: alloc_def new_def)
  next
    case (Inr h2)
    show ?thesis
    proof (cases "obj_commands c")
      case None
      with Inr show ?thesis by (simp add: alloc_def new_def)
    next
      case (Some cs)
      with Suc.prems have "\<forall>kc\<in>set cs. within_depth n (snd kc)" by simp
      then have "\<forall>kc\<in>set cs. \<forall>par h. \<exists>r. process_command n (fst kc) (snd kc) par h = Some r"
        using Suc.IH by blast
      from subcommands_loop_returns[OF this, of "length h" h2]
      obtain r where "subcommands_loop (process_command n) cs (length h) h2 = Some r" by blast
      with Inr Some show ?thesis
        by (cases r) (simp_all add: alloc_def new_def)
    qed
  qed
qed

lemma process_command_cyclic: "process_command n nm (cyclic_group k) par h = None"
  by (induction n arbitrary: nm par h) (simp_all add: alloc_def)

section \<open>When the extraction fails\<close>













section \<open>The claims\<close>

text \<open>
  In the theorems below, \<open>introspect_click_app n app = Some (Inr (data, h))\<close> says that the
  extraction of \<open>app\<close> returns the dictionary \<open>data\<close> and leaves the schema objects \<open>h\<close>;
  \<open>obj_commands app = Some cs\<close> names the top-level commands; \<open>dict_tree (Suc n) app\<close> says
  that the \<open>commands\<close> dictionaries of the input have no key twice.
\<close>

subsection \<open>C1: parent links\<close>

text \<open>
  Claim C1. In every extracted schema, each top-level \<open>CommandSchema\<close> has no parent and
  carries its key as name; and for every node \<open>s\<close> reachable from the top-level schemas
  through \<open>subcommands\<close> and every entry \<open>(k, c)\<close> of \<open>s.subcommands\<close>, the \<open>parent\<close> of \<open>c\<close>
  is \<open>s\<close> itself and the name of \<open>c\<close> is \<open>k\<close>; no key and no child occurs twice in the
  dictionary, so that a child appears in it exactly once.
\<close>

theorem parent_links:
  assumes "introspect_click_app n app = Some (Inr (data, h))"
  shows "(\<forall>ka\<in>set data. command_parent (h ! snd ka) = None \<and> command_name (h ! snd ka) = fst ka) \<and>
         (\<forall>d. \<forall>s\<in>set (nodes_at_depth h (map snd data) d).
            (\<forall>kc\<in>set (command_subcommands (h ! s)).
               command_parent (h ! snd kc) = Some s \<and> command_name (h ! snd kc) = fst kc) \<and>
            distinct (map fst (command_subcommands (h ! s))) \<and>
            distinct (map snd (command_subcommands (h ! s))))"
proof -
  from introspect_roots_ok[OF assms] have wf: "wf_heap h"
    and rts: "\<forall>ka\<in>set data. snd ka < length h \<and> command_parent (h ! snd ka) = None \<and>
                      command_name (h ! snd ka) = fst ka"
    unfolding roots_ok_def by blast+
  have in_heap: "\<And>d s. s \<in> set (nodes_at_depth h (map snd data) d) \<Longrightarrow> s < length h"
    using nodes_in_heap[OF wf, of "map snd data"] rts by auto
  show ?thesis
  proof (intro conjI allI ballI)
    fix ka assume "ka \<in> set data"
    with rts show "command_parent (h ! snd ka) = None" "command_name (h ! snd ka) = fst ka" by auto
  next
    fix d s kc
    assume s: "s \<in> set (nodes_at_depth h (map snd data) d)"
      and kc: "kc \<in> set (command_subcommands (h ! s))"
    from wf_heapD[OF wf in_heap[OF s] kc]
    show "command_parent (h ! snd kc) = Some s" "command_name (h ! snd kc) = fst kc" by simp_all
  next
    fix d s
    assume s: "s \<in> set (nodes_at_depth h (map snd data) d)"
    from wf_heap_distinct[OF wf in_heap[OF s]]
    show "distinct (map fst (command_subcommands (h ! s)))"
      "distinct (map snd (command_subcommands (h ! s)))" by simp_all
  qed
qed

theorem parent_links_witness:
  "introspect_click_app 2 tool_app = Some (Inr (tool_data, tool_heap)) \<and>
   command_parent (tool_heap ! 0) = None \<and>
   command_parent (tool_heap ! 1) = Some 0 \<and> command_name (tool_heap ! 1) = ''add'' \<and>
   command_parent (tool_heap ! 2) = Some 0 \<and> command_name (tool_heap ! 2) = ''list''"
proof -
  have run: "introspect_click_app 2 tool_app = Some (Inr (tool_data, tool_heap))"
    by (rule tool_app_run)
  note links = parent_links[OF run]
  from links have "\<forall>ka\<in>set tool_data. command_parent (tool_heap ! snd ka) = None"
    by blast
  then have root: "command_parent (tool_heap ! 0) = None"
    by (simp add: tool_data_def)
  from links have "\<forall>s\<in>set (nodes_at_depth tool_heap (map snd tool_data) 0).
       \<forall>kc\<in>set (command_subcommands (tool_heap ! s)).
         command_parent (tool_heap ! snd kc) = Some s \<and>
         command_name (tool_heap ! snd kc) = fst kc"
    by blast
  then have "\<forall>kc\<in>set (command_subcommands (tool_heap ! 0)).
         command_parent (tool_heap ! snd kc) = Some 0 \<and>
         command_name (tool_heap ! snd kc) = fst kc"
    by (simp add: tool_data_def)
  moreover have "command_subcommands (tool_heap ! 0) = [(''add'', 1), (''list'', 2)]"
    by (simp add: tool_heap_def)
  ultimately have "command_parent (tool_heap ! 1) = Some 0 \<and> command_name (tool_heap ! 1) = ''add'' \<and>
   command_parent (tool_heap ! 2) = Some 0 \<and> command_name (tool_heap ! 2) = ''list''"
    by simp
  with run root show ?thesis by blast
qed

subsection \<open>C2: options and arguments partition the parameters\<close>

text \<open>
  Claim C2. For every command of the input, the options of its schema are, in order, the
  parameters that pass the option test, and the arguments are, in order, the parameters
  that pass the argument test; the two tests exclude each other. When every declared
  parameter passes one of them (a valid input), the number of options plus the number of
  arguments is the number of declared parameters: none is dropped, none occurs twice.
\<close>

theorem params_partitioned:
  assumes run: "introspect_click_app n app = Some (Inr (data, h))"
    and cs: "obj_commands app = Some cs"
    and dict: "dict_tree (Suc n) app"
  shows "forest_all n
     (\<lambda>c s.
        list_all2 (\<lambda>p x. option_name x = param_name p)
          (filter option_like (obj_params c)) (command_options s) \<and>
        list_all2 (\<lambda>p x. argument_name x = param_name p)
          (filter positional (obj_params c)) (command_arguments s) \<and>
        ((\<forall>p\<in>set (obj_params c). option_like p \<or> positional p) \<longrightarrow>
           length (command_options s) + length (command_arguments s) = length (obj_params c)))
     h cs data"
proof (rule forest_all_mono[OF _ introspect_forest[OF run cs dict]])
  fix c s
  assume ok: "node_ok c s"
  then have os: "list_all2 option_rel (filter option_like (obj_params c)) (command_options s)"
    and as: "list_all2 argument_rel (filter positional (obj_params c)) (command_arguments s)"
    by (simp_all add: node_ok_def)
  have "list_all2 (\<lambda>p x. option_name x = param_name p)
          (filter option_like (obj_params c)) (command_options s)"
    using os by (rule list_all2_mono) (simp add: option_rel_def)
  moreover have "list_all2 (\<lambda>p x. argument_name x = param_name p)
          (filter positional (obj_params c)) (command_arguments s)"
    using as by (rule list_all2_mono) (simp add: argument_rel_def)
  moreover have "(\<forall>p\<in>set (obj_params c). option_like p \<or> positional p) \<longrightarrow>
           length (command_options s) + length (command_arguments s) = length (obj_params c)"
    using list_all2_lengthD[OF os] list_all2_lengthD[OF as]
      length_filter_partition[of "obj_params c"]
    by (metis (no_types, lifting))
  ultimately show "list_all2 (\<lambda>p x. option_name x = param_name p)
          (filter option_like (obj_params c)) (command_options s) \<and>
        list_all2 (\<lambda>p x. argument_name x = param_name p)
          (filter positional (obj_params c)) (command_arguments s) \<and>
        ((\<forall>p\<in>set (obj_params c). option_like p \<or> positional p) \<longrightarrow>
           length (command_options s) + length (command_arguments s) = length (obj_params c))"
    by blast
qed

theorem params_partitioned_witness:
  "introspect_click_app 2 demo_app = Some (Inr (demo_data, demo_heap)) \<and>
   obj_commands demo_app = Some demo_commands \<and> dict_tree (Suc 2) demo_app \<and>
   list_all (\<lambda>p. option_like p \<or> positional p) [opt_force, grp_param, arg_path, arg_mode] \<and>
   forest_all 2
     (\<lambda>c s.
        list_all2 (\<lambda>p x. option_name x = param_name p)
          (filter option_like (obj_params c)) (command_options s) \<and>
        list_all2 (\<lambda>p x. argument_name x = param_name p)
          (filter positional (obj_params c)) (command_arguments s) \<and>
        ((\<forall>p\<in>set (obj_params c). option_like p \<or> positional p) \<longrightarrow>
           length (command_options s) + length (command_arguments s) = length (obj_params c)))
     demo_heap demo_commands demo_data"
proof -
  have "list_all (\<lambda>p. option_like p \<or> positional p) [opt_force, grp_param, arg_path, arg_mode]"
    by (simp add: option_like_def positional_def opt_force_def grp_param_def arg_path_def
        arg_mode_def)
  with params_partitioned[OF demo_app_run demo_app_commands demo_app_dict]
    demo_app_run demo_app_commands demo_app_dict
  show ?thesis by blast
qed

subsection \<open>C3: choices of an argument\<close>

text \<open>
  Claim C3. For every positional parameter of every command, the \<open>choices\<close> of its
  \<open>ArgumentSchema\<close> are present if and only if the type of the parameter is a \<open>Choice\<close>,
  and then they are the declared choices, in the declared order.
\<close>

theorem argument_choices_iff_choice:
  assumes run: "introspect_click_app n app = Some (Inr (data, h))"
    and cs: "obj_commands app = Some cs"
    and dict: "dict_tree (Suc n) app"
  shows "forest_all n
     (\<lambda>c s.
        list_all2
          (\<lambda>p x. (argument_choices x \<noteq> None) = (\<exists>tn ch. param_type p = Some (Choice tn ch)) \<and>
                  (\<forall>tn ch. param_type p = Some (Choice tn ch) \<longrightarrow> argument_choices x = Some ch))
          (filter (\<lambda>p. param_class p = ArgumentClass) (obj_params c)) (command_arguments s))
     h cs data"
proof (rule forest_all_mono[OF _ introspect_forest[OF run cs dict]])
  fix c s
  assume "node_ok c s"
  then have "list_all2 argument_rel (filter (\<lambda>p. param_class p = ArgumentClass) (obj_params c))
               (command_arguments s)"
    by (simp add: node_ok_def positional_def[abs_def])
  then show "list_all2
          (\<lambda>p x. (argument_choices x \<noteq> None) = (\<exists>tn ch. param_type p = Some (Choice tn ch)) \<and>
                  (\<forall>tn ch. param_type p = Some (Choice tn ch) \<longrightarrow> argument_choices x = Some ch))
          (filter (\<lambda>p. param_class p = ArgumentClass) (obj_params c)) (command_arguments s)"
    by (rule list_all2_mono)
      (auto simp: argument_rel_def choices_of_def split: option.splits ParamType.splits)
qed

theorem argument_choices_iff_choice_witness:
  "introspect_click_app 2 demo_app = Some (Inr (demo_data, demo_heap)) \<and>
   obj_commands demo_app = Some demo_commands \<and> dict_tree (Suc 2) demo_app \<and>
   forest_all 2
     (\<lambda>c s.
        list_all2
          (\<lambda>p x. (argument_choices x \<noteq> None) = (\<exists>tn ch. param_type p = Some (Choice tn ch)) \<and>
                  (\<forall>tn ch. param_type p = Some (Choice tn ch) \<longrightarrow> argument_choices x = Some ch))
          (filter (\<lambda>p. param_class p = ArgumentClass) (obj_params c)) (command_arguments s))
     demo_heap demo_commands demo_data \<and>
   param_type arg_mode = Some (Choice (Some ''choice'') [''a'', ''b'', ''c'']) \<and>
   map argument_choices (command_arguments (demo_heap ! 1)) = [None, Some [''a'', ''b'', ''c'']]"
proof -
  have "param_type arg_mode = Some (Choice (Some ''choice'') [''a'', ''b'', ''c''])"
    by (simp add: arg_mode_def)
  moreover have "map argument_choices (command_arguments (demo_heap ! 1)) =
      [None, Some [''a'', ''b'', ''c'']]"
    by (simp add: demo_heap_def)
  ultimately show ?thesis
    using argument_choices_iff_choice[OF demo_app_run demo_app_commands demo_app_dict]
      demo_app_run demo_app_commands demo_app_dict
    by blast
qed

subsection \<open>C4: option-like parameters become options\<close>




subsection \<open>C5: what happens on inputs outside the contract\<close>




subsection \<open>C6: \<open>path_from_root\<close>\<close>

text \<open>
  Claim C6. For every node of depth \<open>d\<close> in an extracted schema tree, \<open>path_from_root\<close>
  returns, and its result has \<open>d + 1\<close> elements, begins with a node without parent, ends
  with the node itself, and each element is the parent of the next and holds it in its
  \<open>subcommands\<close>: the path is ordered from the root.
\<close>

theorem path_from_root_correct:
  assumes run: "introspect_click_app n app = Some (Inr (data, h))"
    and node: "a \<in> set (nodes_at_depth h (map snd data) d)"
  shows "\<exists>p. path_from_root h a = Some p \<and> length p = d + 1 \<and>
             command_parent (h ! hd p) = None \<and> last p = a \<and> parent_linked h p"
proof -
  from introspect_roots_ok[OF run] have wf: "wf_heap h"
    and rts: "\<forall>r\<in>set (map snd data). r < length h \<and> command_parent (h ! r) = None"
    unfolding roots_ok_def by auto
  from path_of_node[OF wf rts node] obtain p where
    loop: "\<And>acc. path_loop h a acc = Some (acc @ tl (rev p))"
    and ne: "p \<noteq> []" and last: "last p = a" and len: "length p = Suc d"
    and root: "command_parent (h ! hd p) = None" and linked: "parent_linked h p"
    by blast
  have revp: "rev p = a # tl (rev p)"
    using ne last by (cases "rev p") (auto simp: last_rev[symmetric] simp del: last_rev)
  have "path_from_root h a = Some (rev (a # tl (rev p)))"
    by (simp add: path_from_root_def loop)
  then have "path_from_root h a = Some p"
    by (simp only: revp[symmetric] rev_rev_ident)
  with len root last linked show ?thesis by simp
qed

theorem path_from_root_correct_witness:
  "introspect_click_app 2 tool_app = Some (Inr (tool_data, tool_heap)) \<and>
   2 \<in> set (nodes_at_depth tool_heap (map snd tool_data) 1) \<and>
   (\<exists>p. path_from_root tool_heap 2 = Some p \<and> length p = 1 + 1 \<and>
        command_parent (tool_heap ! hd p) = None \<and> last p = 2 \<and> parent_linked tool_heap p)"
proof -
  have node: "2 \<in> set (nodes_at_depth tool_heap (map snd tool_data) 1)"
    by (simp add: tool_data_def tool_heap_def)
  from path_from_root_correct[OF tool_app_run node] tool_app_run node
  show ?thesis by blast
qed

subsection \<open>C7: the default of an argument\<close>

text \<open>
  Claim C7 says that the \<open>default\<close> of an \<open>ArgumentSchema\<close> is the declared default of
  its parameter. The code builds \<open>ArgumentSchema\<close> without \<open>default\<close>, which stays
  \<open>None\<close>: the argument \<open>count\<close> declares the default 5 and its schema has none.
\<close>

theorem argument_default_not_recorded:
  "param_default arg_count = Some (PyInt 5) \<and>
   introspect_click_app 1 count_app =
     Some (Inr ([(''repeat'', 0)],
       [\<lparr>command_name = ''repeat'', command_function = Some 1, command_docstring = None,
         command_options = [],
         command_arguments =
           [\<lparr>argument_name = ''count'', argument_type = ''integer'', argument_required = False,
             argument_default = PyNone, argument_choices = None\<rparr>],
         command_subcommands = [], command_parent = None\<rparr>]))"
  by (simp add: introspect_click_app_def count_app_def arg_count_def alloc_def
      append_argument_def modify_def resolve_type_name_def read_required_def choices_of_def)

subsection \<open>C8: the result mirrors the input\<close>

text \<open>
  Claim C8. The dictionary returned by the extraction has the keys of the input mapping,
  in the same order; each top-level schema has no parent; and at every level the schema
  of a command carries its callback and help text and has a \<open>subcommands\<close> dictionary
  with the keys of the \<open>commands\<close> of the command, whose entries mirror the children in
  turn. A command that is not a group and a group without children both have the empty
  dictionary.
\<close>

theorem extract_mirrors_input:
  assumes run: "introspect_click_app n app = Some (Inr (data, h))"
    and cs: "obj_commands app = Some cs"
    and dict: "dict_tree (Suc n) app"
  shows "map fst data = map fst cs \<and>
     (\<forall>ka\<in>set data. command_parent (h ! snd ka) = None \<and> command_name (h ! snd ka) = fst ka) \<and>
     forest_all n
       (\<lambda>c s. command_function s = obj_callback c \<and> command_docstring s = obj_help c \<and>
              (obj_commands c = None \<longrightarrow> command_subcommands s = []) \<and>
              (obj_commands c = Some [] \<longrightarrow> command_subcommands s = []) \<and>
              (\<forall>cs'. obj_commands c = Some cs' \<longrightarrow>
                     map fst (command_subcommands s) = map fst cs'))
       h cs data"
proof (intro conjI)
  note forest = introspect_forest[OF run cs dict]
  show "map fst data = map fst cs"
    using forest unfolding forest_all_def by (rule list_all2_keys)
  show "\<forall>ka\<in>set data. command_parent (h ! snd ka) = None \<and> command_name (h ! snd ka) = fst ka"
    using introspect_roots_ok[OF run] unfolding roots_ok_def by blast
  have "forest_all n (\<lambda>c s. node_ok c s \<and>
     (\<forall>cs. obj_commands c = Some cs \<longrightarrow> map fst (command_subcommands s) = map fst cs)) h cs data"
    using forest unfolding forest_all_def
    by (rule list_all2_mono) (simp add: tree_all_keys)
  then show "forest_all n
       (\<lambda>c s. command_function s = obj_callback c \<and> command_docstring s = obj_help c \<and>
              (obj_commands c = None \<longrightarrow> command_subcommands s = []) \<and>
              (obj_commands c = Some [] \<longrightarrow> command_subcommands s = []) \<and>
              (\<forall>cs'. obj_commands c = Some cs' \<longrightarrow>
                     map fst (command_subcommands s) = map fst cs'))
       h cs data"
    by (rule forest_all_mono[rotated]) (auto simp: node_ok_def)
qed

theorem extract_mirrors_input_witness:
  "introspect_click_app 2 demo_app = Some (Inr (demo_data, demo_heap)) \<and>
   obj_commands demo_app = Some demo_commands \<and> dict_tree (Suc 2) demo_app \<and>
   map fst demo_data = map fst demo_commands \<and>
   command_parent (demo_heap ! 0) = None \<and> command_name (demo_heap ! 0) = ''tool'' \<and>
   forest_all 2
       (\<lambda>c s. command_function s = obj_callback c \<and> command_docstring s = obj_help c \<and>
              (obj_commands c = None \<longrightarrow> command_subcommands s = []) \<and>
              (obj_commands c = Some [] \<longrightarrow> command_subcommands s = []) \<and>
              (\<forall>cs'. obj_commands c = Some cs' \<longrightarrow>
                     map fst (command_subcommands s) = map fst cs'))
       demo_heap demo_commands demo_data \<and>
   command_subcommands (demo_heap ! 2) = []"
proof -
  note mirror = extract_mirrors_input[OF demo_app_run demo_app_commands demo_app_dict]
  from mirror have "\<forall>ka\<in>set demo_data. command_parent (demo_heap ! snd ka) = None \<and>
      command_name (demo_heap ! snd ka) = fst ka"
    by blast
  then have root: "command_parent (demo_heap ! 0) = None \<and> command_name (demo_heap ! 0) = ''tool''"
    by (simp add: demo_data_def)
  have "command_subcommands (demo_heap ! 2) = []" by (simp add: demo_heap_def)
  with root mirror demo_app_run demo_app_commands demo_app_dict show ?thesis
    by blast
qed

subsection \<open>C9: termination\<close>

text \<open>
  Claim C9. On an input tree that is finite, with at most \<open>n\<close> levels, \<open>process_command\<close>
  returns (a schema or an error) without nesting more than \<open>n\<close> calls, and so does
  \<open>introspect_click_app\<close> on an application whose commands have at most \<open>n\<close> levels.
  Nothing detects a cycle: on a group that contains itself the walk does not return,
  whatever the depth allowed.
\<close>

theorem walk_terminates_on_finite_trees:
  "(within_depth n c \<longrightarrow> (\<exists>r. process_command n nm c par h = Some r)) \<and>
   (within_depth (Suc n) app \<longrightarrow> (\<exists>r. introspect_click_app n app = Some r)) \<and>
   (\<forall>m. process_command m nm (cyclic_group k) par h = None)"
proof (intro conjI impI allI)
  assume "within_depth n c"
  then show "\<exists>r. process_command n nm c par h = Some r" by (rule process_command_returns)
next
  assume fin: "within_depth (Suc n) app"
  show "\<exists>r. introspect_click_app n app = Some r"
  proof (cases "obj_commands app")
    case None
    then show ?thesis by (simp add: introspect_click_app_def)
  next
    case (Some cs)
    with fin have "\<forall>kc\<in>set cs. within_depth n (snd kc)" by simp
    then have "\<forall>kc\<in>set cs. \<forall>par h. \<exists>r. process_command n (fst kc) (snd kc) par h = Some r"
      using process_command_returns by blast
    from app_loop_returns[OF this] Some show ?thesis by (simp add: introspect_click_app_def)
  qed
next
  fix m show "process_command m nm (cyclic_group k) par h = None" by (rule process_command_cyclic)
qed

theorem walk_terminates_on_finite_trees_witness:
  "within_depth 2 (snd (hd demo_commands)) \<and>
   (\<exists>r. process_command 2 ''tool'' (snd (hd demo_commands)) None [] = Some r) \<and>
   within_depth (Suc 2) demo_app \<and> (\<exists>r. introspect_click_app 2 demo_app = Some r) \<and>
   (\<forall>m. process_command m ''tool'' (cyclic_group ''self'') None [] = None)"
proof -
  have d1: "within_depth 2 (snd (hd demo_commands))"
    by (simp add: demo_commands_def numeral_2_eq_2)
  have d2: "within_depth (Suc 2) demo_app"
    by (simp add: demo_app_def demo_commands_def numeral_2_eq_2)
  from walk_terminates_on_finite_trees[of 2 "snd (hd demo_commands)" "''tool''" None "[]"
      demo_app "''self''"] d1 d2
  show ?thesis by blast
qed

subsection \<open>C10: choices of an option\<close>

text \<open>
  Claim C10. In every extracted schema tree the \<open>choices\<close> of every \<open>OptionSchema\<close> of
  every command are \<open>None\<close>, also when the type of the option is a \<open>Choice\<close>.
\<close>

theorem option_choices_absent:
  assumes run: "introspect_click_app n app = Some (Inr (data, h))"
    and cs: "obj_commands app = Some cs"
    and dict: "dict_tree (Suc n) app"
  shows "forest_all n (\<lambda>c s. \<forall>x\<in>set (command_options s). option_choices x = None) h cs data"
proof (rule forest_all_mono[OF _ introspect_forest[OF run cs dict]])
  fix c s
  assume ok: "node_ok c s"
  then have os: "list_all2 option_rel (filter option_like (obj_params c)) (command_options s)"
    by (simp add: node_ok_def)
  show "\<forall>x\<in>set (command_options s). option_choices x = None"
  proof
    fix x assume "x \<in> set (command_options s)"
    from list_all2_set2[OF os this] show "option_choices x = None"
      by (auto simp: option_rel_def)
  qed
qed

theorem option_choices_absent_witness:
  "introspect_click_app 2 demo_app = Some (Inr (demo_data, demo_heap)) \<and>
   obj_commands demo_app = Some demo_commands \<and> dict_tree (Suc 2) demo_app \<and>
   forest_all 2 (\<lambda>c s. \<forall>x\<in>set (command_options s). option_choices x = None)
     demo_heap demo_commands demo_data \<and>
   param_type opt_color = Some (Choice (Some ''choice'') [''red'', ''green'']) \<and>
   map option_choices (command_options (demo_heap ! 0)) = [None]"
proof -
  have "param_type opt_color = Some (Choice (Some ''choice'') [''red'', ''green''])"
    by (simp add: opt_color_def)
  moreover have "map option_choices (command_options (demo_heap ! 0)) = [None]"
    by (simp add: demo_heap_def)
  ultimately show ?thesis
    using option_choices_absent[OF demo_app_run demo_app_commands demo_app_dict]
      demo_app_run demo_app_commands demo_app_dict
    by blast
qed

end
